theory Spec2Isabelle
  imports Complex_Main "HOL-Library.FSet" "HOL-Library.AList" "HOL-Library.Log_Nat"
begin

section \<open>PageRank: a shallow embedding of \<open>pagerank.py\<close>\<close>

text \<open>
  Conventions of the embedding.
  \<^item> A Python \<open>dict\<close> is an association list in insertion order; a real \<open>dict\<close> has
    pairwise distinct keys (\<open>is_dict\<close>). \<open>d[k]\<close> is \<open>lookup\<close>, which raises
    \<open>KeyError\<close>; \<open>d[k] = v\<close> is \<open>AList.update\<close> (overwrite in place, else append).
  \<^item> A Python \<open>set\<close> of pages is a finite set (\<open>page fset\<close>); \<open>len\<close> is \<open>fcard\<close>.
  \<^item> Python's \<open>float\<close> is modelled twice. In \<open>transition_model\<close>, \<open>sample_pagerank\<close>
    and the first model of \<open>iterate_pagerank\<close> it is idealised as \<open>real\<close>: every arithmetic
    operation is the exact one, which says what formula the code evaluates. The second
    model of \<open>iterate_pagerank\<close> rounds every operation to double precision (\<open>fl\<close>): the
    claims about whether the loop leaves, and about how the differences of its rounds
    behave, are settled there, because rounding decides them.
  \<^item> Exceptions are values of type \<open>error\<close>; a function that can raise returns
    \<open>error + 'a\<close> with \<open>Inl\<close> the exception.
  \<^item> The \<open>while True\<close> loop of \<open>iterate_pagerank\<close> is a partial function into
    \<open>option\<close>: \<open>None\<close> is non-termination.
  \<^item> The module \<open>random\<close> is a parameter: a number from which \<open>random.choice\<close>
    takes its index (reduced modulo the length of the list, so that it is in range), and
    the sequence of the values of \<open>random.random()\<close>, one for each pass of the loop.
\<close>

subsection \<open>Data model\<close>

type_synonym page = string

type_synonym corpus = "(page \<times> page fset) list"

type_synonym dist = "(page \<times> real) list"

datatype error = KeyError page | IndexError | ValueError | ZeroDivisionError | TypeError

definition is_dict :: "('k \<times> 'v) list \<Rightarrow> bool" where
  "is_dict d = distinct (map fst d)"

definition keys :: "('k \<times> 'v) list \<Rightarrow> 'k list" where
  "keys d = map fst d"

definition lookup :: "(page \<times> 'v) list \<Rightarrow> page \<Rightarrow> error + 'v" where
  "lookup d k = (case map_of d k of None \<Rightarrow> Inl (KeyError k) | Some v \<Rightarrow> Inr v)"

text \<open>The graph invariant of the specification: every linked identifier is a key, and
  no page links to itself.\<close>

definition graph_invariant :: "corpus \<Rightarrow> bool" where
  "graph_invariant c =
     (\<forall>(p, links) \<in> set c. fset links \<subseteq> set (keys c) \<and> p |\<notin>| links)"

subsection \<open>\<open>transition_model\<close> (lines 51 to 64)\<close>

definition transition_model :: "corpus \<Rightarrow> page \<Rightarrow> real \<Rightarrow> error + dist" where
  "transition_model corpus page damping_factor =
     (case lookup corpus page of
        Inl e \<Rightarrow> Inl e
      | Inr links \<Rightarrow>
          let num_pages = length corpus; num_links = fcard links in
          if num_links = 0
          then Inr (map (\<lambda>p. (p, 1 / real num_pages)) (keys corpus))
          else Inr (map (\<lambda>p. (p, (if p |\<in>| links then damping_factor / real num_links else 0)
                                   + (1 - damping_factor) / real num_pages))
                        (keys corpus)))"

subsection \<open>\<open>sample_pagerank\<close> (lines 67 to 97)\<close>

text \<open>The value \<open>[lo, hi]\<close> that \<open>transform_model\<close> stores for a page is a pair; a
  distribution so transformed is a dictionary of such pairs.\<close>

type_synonym intervals = "(page \<times> real \<times> real) list"

text \<open>Lines 79 to 81: the loop \<open>for page in transition_model\<close> of the local function
  \<open>transform_model\<close>.\<close>

fun transform_loop :: "dist \<Rightarrow> page list \<Rightarrow> real \<Rightarrow> intervals \<Rightarrow> error + intervals" where
  "transform_loop tm [] threshold t_model = Inr t_model"
| "transform_loop tm (page # pages) threshold t_model =
     (case lookup tm page of
        Inl e \<Rightarrow> Inl e
      | Inr v \<Rightarrow>
          transform_loop tm pages (threshold + v)
            (AList.update page (threshold, threshold + v) t_model))"

definition transform_model :: "dist \<Rightarrow> error + intervals" where
  "transform_model tm = transform_loop tm (keys tm) 0 []"

text \<open>Lines 92 to 95: the loop \<open>for p in model\<close>; the page stays what it is when no
  interval holds \<open>r\<close>.\<close>

fun pick_loop :: "intervals \<Rightarrow> page list \<Rightarrow> real \<Rightarrow> page \<Rightarrow> error + page" where
  "pick_loop model [] r page = Inr page"
| "pick_loop model (p # ps) r page =
     (case lookup model p of
        Inl e \<Rightarrow> Inl e
      | Inr (lo, hi) \<Rightarrow>
          if r \<ge> lo \<and> r < hi then Inr p else pick_loop model ps r page)"

text \<open>The state of the loop of lines 87 to 96: the current \<open>page\<close>, the counters
  \<open>sample\<close> and the cache \<open>models\<close>.\<close>

type_synonym sampler =
  "page \<times> (page \<times> nat) list \<times> (page \<times> intervals option) list"

text \<open>Lines 88 and 89: fill the cache for the current page if it is still \<open>None\<close>.\<close>

definition fill_cache ::
  "corpus \<Rightarrow> real \<Rightarrow> page \<Rightarrow> (page \<times> intervals option) list
     \<Rightarrow> error + (page \<times> intervals option) list" where
  "fill_cache corpus damping_factor page models =
     (case lookup models page of
        Inl e \<Rightarrow> Inl e
      | Inr (Some m) \<Rightarrow> Inr models
      | Inr None \<Rightarrow>
         (case transition_model corpus page damping_factor of
            Inl e \<Rightarrow> Inl e
          | Inr tm \<Rightarrow>
             (case transform_model tm of
                Inl e \<Rightarrow> Inl e
              | Inr t \<Rightarrow> Inr (AList.update page (Some t) models))))"

text \<open>Lines 88 to 96: one pass through the body of \<open>for i in range(n)\<close>, with \<open>r\<close> the
  value of \<open>random.random()\<close>.\<close>

definition sample_step :: "corpus \<Rightarrow> real \<Rightarrow> real \<Rightarrow> sampler \<Rightarrow> error + sampler" where
  "sample_step corpus damping_factor r st =
     (case st of (page, sample, models) \<Rightarrow>
        (case fill_cache corpus damping_factor page models of
           Inl e \<Rightarrow> Inl e
         | Inr models' \<Rightarrow>
            (case lookup models' page of
               Inl e \<Rightarrow> Inl e
             | Inr None \<Rightarrow> Inl TypeError
             | Inr (Some model) \<Rightarrow>
                (case pick_loop model (keys model) r page of
                   Inl e \<Rightarrow> Inl e
                 | Inr page' \<Rightarrow>
                    (case lookup sample page' of
                       Inl e \<Rightarrow> Inl e
                     | Inr count \<Rightarrow>
                         Inr (page', AList.update page' (count + 1) sample, models'))))))"

text \<open>Line 87: \<open>for i in range(n)\<close>; \<open>i\<close> is the index of the pass, \<open>m\<close> the number of
  passes still to make.\<close>

fun sample_loop ::
  "corpus \<Rightarrow> real \<Rightarrow> (nat \<Rightarrow> real) \<Rightarrow> nat \<Rightarrow> nat \<Rightarrow> sampler \<Rightarrow> error + sampler" where
  "sample_loop corpus damping_factor rnd i 0 st = Inr st"
| "sample_loop corpus damping_factor rnd i (Suc m) st =
     (case sample_step corpus damping_factor (rnd i) st of
        Inl e \<Rightarrow> Inl e
      | Inr st' \<Rightarrow> sample_loop corpus damping_factor rnd (Suc i) m st')"

text \<open>Lines 84 to 97. \<open>random.choice\<close> raises \<open>IndexError\<close> on the empty list; the
  division \<open>value/n\<close> of line 97 raises \<open>ZeroDivisionError\<close> when \<open>n\<close> is 0.\<close>

definition visit_counts ::
  "corpus \<Rightarrow> real \<Rightarrow> int \<Rightarrow> nat \<Rightarrow> (nat \<Rightarrow> real) \<Rightarrow> error + (page \<times> nat) list" where
  "visit_counts corpus damping_factor n choice rnd =
     (if keys corpus = [] then Inl IndexError
      else
        let page = keys corpus ! (choice mod length (keys corpus));
            sample = map (\<lambda>p. (p, if p = page then 1 else 0)) (keys corpus);
            models = map (\<lambda>p. (p, None)) (keys corpus)
        in (case sample_loop corpus damping_factor rnd 0 (nat n) (page, sample, models) of
              Inl e \<Rightarrow> Inl e
            | Inr (page', sample', models') \<Rightarrow> Inr sample'))"

definition sample_pagerank ::
  "corpus \<Rightarrow> real \<Rightarrow> int \<Rightarrow> nat \<Rightarrow> (nat \<Rightarrow> real) \<Rightarrow> error + dist" where
  "sample_pagerank corpus damping_factor n choice rnd =
     (case visit_counts corpus damping_factor n choice rnd of
        Inl e \<Rightarrow> Inl e
      | Inr sample \<Rightarrow>
          if n = 0 then Inl ZeroDivisionError
          else Inr (map (\<lambda>(key, value). (key, real value / real_of_int n)) sample))"

subsection \<open>\<open>iterate_pagerank\<close> (lines 100 to 125)\<close>

text \<open>Lines 109 and 110: the local name \<open>corpus\<close> is bound to a new dictionary in which
  a page without links has the set of all pages as its links.\<close>

definition normalized_corpus :: "corpus \<Rightarrow> corpus" where
  "normalized_corpus corpus =
     (let all_pages = fset_of_list (keys corpus)
      in map (\<lambda>(k, v). (k, if fcard v = 0 then all_pages else v)) corpus)"

text \<open>Lines 116 to 119: the inner loop \<open>for p in corpus\<close>, which accumulates
  \<open>lead_pages\<close>.\<close>

fun lead_loop :: "corpus \<Rightarrow> dist \<Rightarrow> page \<Rightarrow> page list \<Rightarrow> real \<Rightarrow> error + real" where
  "lead_loop corpus page_rank page [] lead_pages = Inr lead_pages"
| "lead_loop corpus page_rank page (p # ps) lead_pages =
     (case lookup corpus p of
        Inl e \<Rightarrow> Inl e
      | Inr links \<Rightarrow>
          if page |\<in>| links
          then (case lookup page_rank p of
                  Inl e \<Rightarrow> Inl e
                | Inr r \<Rightarrow>
                    if fcard links = 0 then Inl ZeroDivisionError
                    else lead_loop corpus page_rank page ps (lead_pages + r / real (fcard links)))
          else lead_loop corpus page_rank page ps lead_pages)"

text \<open>Lines 115 to 120: the loop \<open>for page in page_rank\<close>, which fills \<open>new_pr\<close>.\<close>

fun round_loop :: "corpus \<Rightarrow> real \<Rightarrow> nat \<Rightarrow> dist \<Rightarrow> page list \<Rightarrow> dist \<Rightarrow> error + dist" where
  "round_loop corpus damping_factor num_pages page_rank [] new_pr = Inr new_pr"
| "round_loop corpus damping_factor num_pages page_rank (page # pages) new_pr =
     (case lead_loop corpus page_rank page (keys corpus) 0 of
        Inl e \<Rightarrow> Inl e
      | Inr lead_pages \<Rightarrow>
          if num_pages = 0 then Inl ZeroDivisionError
          else round_loop corpus damping_factor num_pages page_rank pages
                 (AList.update page
                    ((1 - damping_factor) / real num_pages + damping_factor * lead_pages)
                    new_pr))"

text \<open>Line 121: the list \<open>[abs(page_rank[p] - new_pr[p]) for p in corpus]\<close> and its
  \<open>max\<close>, which raises \<open>ValueError\<close> on the empty list.\<close>

fun deltas :: "dist \<Rightarrow> dist \<Rightarrow> page list \<Rightarrow> error + real list" where
  "deltas page_rank new_pr [] = Inr []"
| "deltas page_rank new_pr (p # ps) =
     (case lookup page_rank p of
        Inl e \<Rightarrow> Inl e
      | Inr a \<Rightarrow>
         (case lookup new_pr p of
            Inl e \<Rightarrow> Inl e
          | Inr b \<Rightarrow>
             (case deltas page_rank new_pr ps of
                Inl e \<Rightarrow> Inl e
              | Inr ds \<Rightarrow> Inr (\<bar>a - b\<bar> # ds))))"

fun py_max :: "real list \<Rightarrow> error + real" where
  "py_max [] = Inl ValueError"
| "py_max (x # xs) = Inr (fold max xs x)"

definition max_delta :: "corpus \<Rightarrow> dist \<Rightarrow> dist \<Rightarrow> error + real" where
  "max_delta corpus page_rank new_pr =
     (case deltas page_rank new_pr (keys corpus) of
        Inl e \<Rightarrow> Inl e
      | Inr ds \<Rightarrow> py_max ds)"

text \<open>Lines 113 to 124: the loop \<open>while True\<close>. \<open>None\<close> stands for a loop that never
  leaves. The arithmetic of this model is exact, so the round in which it leaves, and that it
  leaves at all, need not be the program's: \<open>pr_while_f\<close> below is the same loop in double
  precision.\<close>

partial_function (option)
  pr_while :: "corpus \<Rightarrow> real \<Rightarrow> nat \<Rightarrow> dist \<Rightarrow> (error + dist) option" where
  "pr_while corpus damping_factor num_pages page_rank =
     (case round_loop corpus damping_factor num_pages page_rank (keys page_rank) [] of
        Inl e \<Rightarrow> Some (Inl e)
      | Inr new_pr \<Rightarrow>
         (case max_delta corpus page_rank new_pr of
            Inl e \<Rightarrow> Some (Inl e)
          | Inr m \<Rightarrow>
              if m \<le> 1 / 1000 then Some (Inr new_pr)
              else pr_while corpus damping_factor num_pages new_pr))"

declare pr_while.simps [code]

definition iterate_pagerank :: "corpus \<Rightarrow> real \<Rightarrow> (error + dist) option" where
  "iterate_pagerank corpus0 damping_factor =
     (let corpus = normalized_corpus corpus0;
          num_pages = length corpus;
          page_rank = map (\<lambda>p. (p, 1 / real num_pages)) (keys corpus)
      in pr_while corpus damping_factor num_pages page_rank)"

text \<open>Observation of the loop: the dictionary bound to \<open>page_rank\<close> after \<open>k\<close> passes
  through the body of \<open>while True\<close> (the \<open>break\<close> left aside), the maximum
  of line 121 that the pass after those computes, and the sum of the same list of
  absolute differences. In exact arithmetic, as the loop above: the doubles the program
  holds differ from these values by the accumulated rounding, see \<open>rank_held_f\<close>.\<close>

fun rounds :: "corpus \<Rightarrow> real \<Rightarrow> nat \<Rightarrow> dist \<Rightarrow> nat \<Rightarrow> error + dist" where
  "rounds corpus damping_factor num_pages page_rank 0 = Inr page_rank"
| "rounds corpus damping_factor num_pages page_rank (Suc k) =
     (case round_loop corpus damping_factor num_pages page_rank (keys page_rank) [] of
        Inl e \<Rightarrow> Inl e
      | Inr new_pr \<Rightarrow> rounds corpus damping_factor num_pages new_pr k)"

definition rank_held :: "corpus \<Rightarrow> real \<Rightarrow> nat \<Rightarrow> error + dist" where
  "rank_held corpus0 damping_factor k =
     (let corpus = normalized_corpus corpus0;
          num_pages = length corpus;
          page_rank = map (\<lambda>p. (p, 1 / real num_pages)) (keys corpus)
      in rounds corpus damping_factor num_pages page_rank k)"

definition round_delta :: "corpus \<Rightarrow> real \<Rightarrow> nat \<Rightarrow> error + real" where
  "round_delta corpus0 damping_factor k =
     (case rank_held corpus0 damping_factor k of
        Inl e \<Rightarrow> Inl e
      | Inr page_rank \<Rightarrow>
         (case rank_held corpus0 damping_factor (Suc k) of
            Inl e \<Rightarrow> Inl e
          | Inr new_pr \<Rightarrow> max_delta (normalized_corpus corpus0) page_rank new_pr))"

definition round_delta_sum :: "corpus \<Rightarrow> real \<Rightarrow> nat \<Rightarrow> error + real" where
  "round_delta_sum corpus0 damping_factor k =
     (case rank_held corpus0 damping_factor k of
        Inl e \<Rightarrow> Inl e
      | Inr page_rank \<Rightarrow>
         (case rank_held corpus0 damping_factor (Suc k) of
            Inl e \<Rightarrow> Inl e
          | Inr new_pr \<Rightarrow>
             (case deltas page_rank new_pr (keys (normalized_corpus corpus0)) of
                Inl e \<Rightarrow> Inl e
              | Inr ds \<Rightarrow> Inr (sum_list ds))))"

subsection \<open>Double-precision arithmetic\<close>

text \<open>
  A Python \<open>float\<close> is an IEEE 754 double: 53 significant bits, every operation returns
  the exact result rounded to the nearest double, a tie going to the double with an even
  significand. \<open>fl x\<close> is that rounding of the real number \<open>x\<close>: with \<open>2 ^ e \<le> \<bar>x\<bar> < 2 ^
  (e + 1)\<close> the doubles near \<open>x\<close> are the multiples of \<open>2 ^ (e - 52)\<close>, and of \<open>2 ^ - 1074\<close>
  below the normal range. Results beyond the largest double, where Python continues with
  \<open>inf\<close>, are outside the model; the values of the loop are ranks and sums of ranks, far
  from that range. A double is a real \<open>x\<close> with \<open>fl x = x\<close>.
\<close>

definition pow2 :: "int \<Rightarrow> real" where
  "pow2 e = (if 0 \<le> e then 2 ^ nat e else 1 / 2 ^ nat (- e))"

text \<open>The exponent \<open>e\<close> with \<open>2 ^ e \<le> x < 2 ^ (e + 1)\<close>, for \<open>x > 0\<close>.\<close>

definition ilog2 :: "real \<Rightarrow> int" where
  "ilog2 x = (if 1 \<le> x then bitlen \<lfloor>x\<rfloor> - 1 else - bitlen (\<lceil>1 / x\<rceil> - 1))"

definition round_even :: "real \<Rightarrow> int" where
  "round_even q =
     (let n = \<lfloor>q\<rfloor>; r = q - of_int n
      in if r < 1 / 2 then n else if 1 / 2 < r then n + 1
         else if even n then n else n + 1)"

definition fl :: "real \<Rightarrow> real" where
  "fl x = (if x = 0 then 0
           else let e = max (ilog2 \<bar>x\<bar>) (- 1022) - 52
                in of_int (round_even (x / pow2 e)) * pow2 e)"

subsection \<open>\<open>iterate_pagerank\<close> in double precision\<close>

text \<open>
  The same lines 109 to 125, with every arithmetic operation of the source rounded where
  Python rounds it: \<open>1/num_pages\<close>, \<open>page_rank[p] / len(corpus[p])\<close>, \<open>lead_pages += \<dots>\<close>,
  \<open>1-damping_factor\<close>, \<open>\<dots>/num_pages\<close>, \<open>damping_factor*lead_pages\<close>, the sum of the two
  terms of line 120 and the difference of line 121; the literal \<open>0.001\<close> is the double
  nearest to \<open>1/1000\<close>. The integers \<open>num_pages\<close> and \<open>len(corpus[p])\<close> convert to doubles
  exactly. The definitions of the subsection before are these with the rounding left out:
  they say which formula a round evaluates; whether and when the loop leaves is a question
  about the definitions here.
\<close>

fun lead_loop_f :: "corpus \<Rightarrow> dist \<Rightarrow> page \<Rightarrow> page list \<Rightarrow> real \<Rightarrow> error + real" where
  "lead_loop_f corpus page_rank page [] lead_pages = Inr lead_pages"
| "lead_loop_f corpus page_rank page (p # ps) lead_pages =
     (case lookup corpus p of
        Inl e \<Rightarrow> Inl e
      | Inr links \<Rightarrow>
          if page |\<in>| links
          then (case lookup page_rank p of
                  Inl e \<Rightarrow> Inl e
                | Inr r \<Rightarrow>
                    if fcard links = 0 then Inl ZeroDivisionError
                    else lead_loop_f corpus page_rank page ps
                           (fl (lead_pages + fl (r / real (fcard links)))))
          else lead_loop_f corpus page_rank page ps lead_pages)"

fun round_loop_f :: "corpus \<Rightarrow> real \<Rightarrow> nat \<Rightarrow> dist \<Rightarrow> page list \<Rightarrow> dist \<Rightarrow> error + dist" where
  "round_loop_f corpus damping_factor num_pages page_rank [] new_pr = Inr new_pr"
| "round_loop_f corpus damping_factor num_pages page_rank (page # pages) new_pr =
     (case lead_loop_f corpus page_rank page (keys corpus) 0 of
        Inl e \<Rightarrow> Inl e
      | Inr lead_pages \<Rightarrow>
          if num_pages = 0 then Inl ZeroDivisionError
          else round_loop_f corpus damping_factor num_pages page_rank pages
                 (AList.update page
                    (fl (fl (fl (1 - damping_factor) / real num_pages)
                         + fl (damping_factor * lead_pages)))
                    new_pr))"

fun deltas_f :: "dist \<Rightarrow> dist \<Rightarrow> page list \<Rightarrow> error + real list" where
  "deltas_f page_rank new_pr [] = Inr []"
| "deltas_f page_rank new_pr (p # ps) =
     (case lookup page_rank p of
        Inl e \<Rightarrow> Inl e
      | Inr a \<Rightarrow>
         (case lookup new_pr p of
            Inl e \<Rightarrow> Inl e
          | Inr b \<Rightarrow>
             (case deltas_f page_rank new_pr ps of
                Inl e \<Rightarrow> Inl e
              | Inr ds \<Rightarrow> Inr (\<bar>fl (a - b)\<bar> # ds))))"

definition max_delta_f :: "corpus \<Rightarrow> dist \<Rightarrow> dist \<Rightarrow> error + real" where
  "max_delta_f corpus page_rank new_pr =
     (case deltas_f page_rank new_pr (keys corpus) of
        Inl e \<Rightarrow> Inl e
      | Inr ds \<Rightarrow> py_max ds)"

partial_function (option)
  pr_while_f :: "corpus \<Rightarrow> real \<Rightarrow> nat \<Rightarrow> dist \<Rightarrow> (error + dist) option" where
  "pr_while_f corpus damping_factor num_pages page_rank =
     (case round_loop_f corpus damping_factor num_pages page_rank (keys page_rank) [] of
        Inl e \<Rightarrow> Some (Inl e)
      | Inr new_pr \<Rightarrow>
         (case max_delta_f corpus page_rank new_pr of
            Inl e \<Rightarrow> Some (Inl e)
          | Inr m \<Rightarrow>
              if m \<le> fl (1 / 1000) then Some (Inr new_pr)
              else pr_while_f corpus damping_factor num_pages new_pr))"

definition iterate_pagerank_f :: "corpus \<Rightarrow> real \<Rightarrow> (error + dist) option" where
  "iterate_pagerank_f corpus0 damping_factor =
     (let corpus = normalized_corpus corpus0;
          num_pages = length corpus;
          page_rank = map (\<lambda>p. (p, fl (1 / real num_pages))) (keys corpus)
      in pr_while_f corpus damping_factor num_pages page_rank)"

text \<open>Observation of the double-precision loop: the dictionary bound to \<open>page_rank\<close>
  after \<open>k\<close> passes (the \<open>break\<close> left aside), the maximum of line 121 that the pass after
  those computes, and the sum of the doubles of the same list (an exact sum: the program
  itself takes only their maximum).\<close>

fun rounds_f :: "corpus \<Rightarrow> real \<Rightarrow> nat \<Rightarrow> dist \<Rightarrow> nat \<Rightarrow> error + dist" where
  "rounds_f corpus damping_factor num_pages page_rank 0 = Inr page_rank"
| "rounds_f corpus damping_factor num_pages page_rank (Suc k) =
     (case round_loop_f corpus damping_factor num_pages page_rank (keys page_rank) [] of
        Inl e \<Rightarrow> Inl e
      | Inr new_pr \<Rightarrow> rounds_f corpus damping_factor num_pages new_pr k)"

definition rank_held_f :: "corpus \<Rightarrow> real \<Rightarrow> nat \<Rightarrow> error + dist" where
  "rank_held_f corpus0 damping_factor k =
     (let corpus = normalized_corpus corpus0;
          num_pages = length corpus;
          page_rank = map (\<lambda>p. (p, fl (1 / real num_pages))) (keys corpus)
      in rounds_f corpus damping_factor num_pages page_rank k)"

definition round_delta_f :: "corpus \<Rightarrow> real \<Rightarrow> nat \<Rightarrow> error + real" where
  "round_delta_f corpus0 damping_factor k =
     (case rank_held_f corpus0 damping_factor k of
        Inl e \<Rightarrow> Inl e
      | Inr page_rank \<Rightarrow>
         (case rank_held_f corpus0 damping_factor (Suc k) of
            Inl e \<Rightarrow> Inl e
          | Inr new_pr \<Rightarrow> max_delta_f (normalized_corpus corpus0) page_rank new_pr))"

definition round_delta_sum_f :: "corpus \<Rightarrow> real \<Rightarrow> nat \<Rightarrow> error + real" where
  "round_delta_sum_f corpus0 damping_factor k =
     (case rank_held_f corpus0 damping_factor k of
        Inl e \<Rightarrow> Inl e
      | Inr page_rank \<Rightarrow>
         (case rank_held_f corpus0 damping_factor (Suc k) of
            Inl e \<Rightarrow> Inl e
          | Inr new_pr \<Rightarrow>
             (case deltas_f page_rank new_pr (keys (normalized_corpus corpus0)) of
                Inl e \<Rightarrow> Inl e
              | Inr ds \<Rightarrow> Inr (sum_list ds))))"

subsection \<open>The recurrence in the words of the specification\<close>

text \<open>The normalised outlink set of a page: the set of all pages for a dangling node.\<close>

definition spec_outlinks :: "corpus \<Rightarrow> page \<Rightarrow> page fset" where
  "spec_outlinks c q =
     (case map_of c q of
        None \<Rightarrow> {||}
      | Some v \<Rightarrow> if v = {||} then fset_of_list (keys c) else v)"

text \<open>\<open>new_rank(p) = (1-d)/N + d * \<Sum> rank(q) / outdegree(q)\<close>, the sum over the pages
  \<open>q\<close> whose normalised outlink set contains \<open>p\<close>.\<close>

definition spec_new_rank :: "corpus \<Rightarrow> real \<Rightarrow> (page \<Rightarrow> real) \<Rightarrow> page \<Rightarrow> real" where
  "spec_new_rank c d rank p =
     (1 - d) / real (length c)
     + d * (\<Sum>q \<in> {q \<in> set (keys c). p |\<in>| spec_outlinks c q}.
              rank q / real (fcard (spec_outlinks c q)))"

text \<open>Every rank starts at \<open>1/N\<close>; each round replaces all ranks at once.\<close>

primrec spec_rank :: "corpus \<Rightarrow> real \<Rightarrow> nat \<Rightarrow> page \<Rightarrow> real" where
  "spec_rank c d 0 = (\<lambda>p. 1 / real (length c))"
| "spec_rank c d (Suc k) = spec_new_rank c d (spec_rank c d k)"

definition spec_delta :: "corpus \<Rightarrow> real \<Rightarrow> nat \<Rightarrow> real" where
  "spec_delta c d k =
     Max ((\<lambda>p. \<bar>spec_rank c d k p - spec_rank c d (Suc k) p\<bar>) ` set (keys c))"

definition as_dict :: "page list \<Rightarrow> (page \<Rightarrow> real) \<Rightarrow> dist" where
  "as_dict ks rank = map (\<lambda>p. (p, rank p)) ks"

text \<open>The largest and the summed absolute difference of two rank functions over the pages
  of a graph.\<close>

definition linf :: "corpus \<Rightarrow> (page \<Rightarrow> real) \<Rightarrow> (page \<Rightarrow> real) \<Rightarrow> real" where
  "linf c R R' = Max ((\<lambda>p. \<bar>R p - R' p\<bar>) ` set (keys c))"

definition l1 :: "corpus \<Rightarrow> (page \<Rightarrow> real) \<Rightarrow> (page \<Rightarrow> real) \<Rightarrow> real" where
  "l1 c R R' = (\<Sum>p \<in> set (keys c). \<bar>R p - R' p\<bar>)"

subsection \<open>Quantities of the rounding-error analysis\<close>

text \<open>The relative error of one rounding in the normal range, and the absolute error of
  one below it.\<close>

definition unit_roundoff :: real where
  "unit_roundoff = 1 / 2 ^ 53"

definition tiny :: real where
  "tiny = 1 / 2 ^ 1075"

text \<open>\<open>near k j x y a\<close>: the computed value \<open>x\<close> stands for the exact value \<open>y\<close>, of
  magnitude at most \<open>a\<close>, after at most \<open>k\<close> roundings in sequence and \<open>j\<close> roundings in
  all.\<close>

definition near :: "nat \<Rightarrow> nat \<Rightarrow> real \<Rightarrow> real \<Rightarrow> real \<Rightarrow> bool" where
  "near k j x y a \<longleftrightarrow>
     \<bar>y\<bar> \<le> a \<and>
     \<bar>x - y\<bar> \<le> ((1 + unit_roundoff) ^ k - 1) * a
                  + real j * (1 + unit_roundoff) ^ k * tiny"

text \<open>What the loops of one double-precision round compute, as functions of the ranks:
  the accumulator of lines 116 to 119, the value of line 120, the sequence of rank
  functions, and the maximum and the sum of the list of line 121.\<close>

fun lead_f :: "(page \<Rightarrow> page fset) \<Rightarrow> (page \<Rightarrow> real) \<Rightarrow> page \<Rightarrow> page list \<Rightarrow> real \<Rightarrow> real" where
  "lead_f L R page [] acc = acc"
| "lead_f L R page (q # qs) acc =
     (if page |\<in>| L q
      then lead_f L R page qs (fl (acc + fl (R q / real (fcard (L q)))))
      else lead_f L R page qs acc)"

definition float_new_rank :: "corpus \<Rightarrow> real \<Rightarrow> (page \<Rightarrow> real) \<Rightarrow> page \<Rightarrow> real" where
  "float_new_rank c d R p =
     fl (fl (fl (1 - d) / real (length c))
         + fl (d * lead_f (spec_outlinks c) R p (keys c) 0))"

primrec float_rank :: "corpus \<Rightarrow> real \<Rightarrow> nat \<Rightarrow> page \<Rightarrow> real" where
  "float_rank c d 0 = (\<lambda>p. fl (1 / real (length c)))"
| "float_rank c d (Suc k) = float_new_rank c d (float_rank c d k)"

definition float_delta :: "corpus \<Rightarrow> (page \<Rightarrow> real) \<Rightarrow> (page \<Rightarrow> real) \<Rightarrow> real" where
  "float_delta c R R' = Max ((\<lambda>p. \<bar>fl (R p - R' p)\<bar>) ` set (keys c))"

definition float_delta_sum :: "corpus \<Rightarrow> (page \<Rightarrow> real) \<Rightarrow> (page \<Rightarrow> real) \<Rightarrow> real" where
  "float_delta_sum c R R' = (\<Sum>p \<in> set (keys c). \<bar>fl (R p - R' p)\<bar>)"

text \<open>The summed magnitude of the ranks, and bounds for the rounding error of one round:
  the growth factor of the at most \<open>N + 3\<close> roundings behind one new rank, the absolute
  error of one page below the normal range, and the error of a round summed over the
  pages when the ranks have summed magnitude at most 2.\<close>

definition mass :: "corpus \<Rightarrow> (page \<Rightarrow> real) \<Rightarrow> real" where
  "mass c R = (\<Sum>p \<in> set (keys c). \<bar>R p\<bar>)"

definition growth :: "corpus \<Rightarrow> real" where
  "growth c = (1 + unit_roundoff) ^ (length c + 3)"

definition page_err :: "corpus \<Rightarrow> real" where
  "page_err c = real (2 * length c + 4) * growth c * tiny"

definition round_err :: "corpus \<Rightarrow> real" where
  "round_err c = 2 * (growth c - 1) + real (length c) * page_err c"

subsection \<open>The three functions on an explicit store\<close>

text \<open>
  For the question which objects a call writes to, the functions are modelled a second
  time with Python's objects in a store. An address is an index into the store; a new
  object is put at the end. A dictionary holds references to other objects (the sets of
  the graph, the cached models), numbers, counters, \<open>None\<close>, or the two-element lists
  \<open>[lo, hi]\<close> of \<open>transform_model\<close>, which are never written to after they are built and
  are kept as values. A local name is an address; binding a name again changes no
  object. Each assignment \<open>d[k] = v\<close> of the source is a \<open>dict_set\<close> on the store.
\<close>

type_synonym addr = nat

datatype val = Ref addr | Num real | Count nat | NoneVal | Interval real real

datatype obj = SetObj "page fset" | DictObj "(page \<times> val) list"

type_synonym store = "obj list"

definition then_do :: "error + 'a \<Rightarrow> ('a \<Rightarrow> error + 'b) \<Rightarrow> error + 'b" where
  "then_do x f = (case x of Inl e \<Rightarrow> Inl e | Inr y \<Rightarrow> f y)"

definition alloc :: "store \<Rightarrow> obj \<Rightarrow> addr \<times> store" where
  "alloc h ob = (length h, h @ [ob])"

definition dict_at :: "store \<Rightarrow> addr \<Rightarrow> error + (page \<times> val) list" where
  "dict_at h a =
     (if a < length h then (case h ! a of DictObj d \<Rightarrow> Inr d | SetObj s \<Rightarrow> Inl TypeError)
      else Inl TypeError)"

definition set_at :: "store \<Rightarrow> addr \<Rightarrow> error + page fset" where
  "set_at h a =
     (if a < length h then (case h ! a of SetObj s \<Rightarrow> Inr s | DictObj d \<Rightarrow> Inl TypeError)
      else Inl TypeError)"

definition dict_get :: "store \<Rightarrow> addr \<Rightarrow> page \<Rightarrow> error + val" where
  "dict_get h a k = then_do (dict_at h a) (\<lambda>d. lookup d k)"

definition dict_set :: "store \<Rightarrow> addr \<Rightarrow> page \<Rightarrow> val \<Rightarrow> error + store" where
  "dict_set h a k v = then_do (dict_at h a) (\<lambda>d. Inr (h[a := DictObj (AList.update k v d)]))"

definition get_ref :: "store \<Rightarrow> addr \<Rightarrow> page \<Rightarrow> error + addr" where
  "get_ref h a k =
     then_do (dict_get h a k) (\<lambda>v. case v of Ref r \<Rightarrow> Inr r | _ \<Rightarrow> Inl TypeError)"

definition get_num :: "store \<Rightarrow> addr \<Rightarrow> page \<Rightarrow> error + real" where
  "get_num h a k =
     then_do (dict_get h a k) (\<lambda>v. case v of Num x \<Rightarrow> Inr x | _ \<Rightarrow> Inl TypeError)"

definition get_count :: "store \<Rightarrow> addr \<Rightarrow> page \<Rightarrow> error + nat" where
  "get_count h a k =
     then_do (dict_get h a k) (\<lambda>v. case v of Count c \<Rightarrow> Inr c | _ \<Rightarrow> Inl TypeError)"

definition get_interval :: "store \<Rightarrow> addr \<Rightarrow> page \<Rightarrow> error + real \<times> real" where
  "get_interval h a k =
     then_do (dict_get h a k)
       (\<lambda>v. case v of Interval lo hi \<Rightarrow> Inr (lo, hi) | _ \<Rightarrow> Inl TypeError)"

text \<open>\<open>transition_model\<close>: \<open>links\<close> is the set object of the graph itself; the result is a
  new dictionary.\<close>

definition transition_model_s :: "store \<Rightarrow> addr \<Rightarrow> page \<Rightarrow> real \<Rightarrow> error + addr \<times> store" where
  "transition_model_s h corpus page damping_factor =
     then_do (get_ref h corpus page) (\<lambda>links_ref.
     then_do (set_at h links_ref) (\<lambda>links.
     then_do (dict_at h corpus) (\<lambda>c.
       let num_pages = length c; num_links = fcard links in
       if num_links = 0
       then Inr (alloc h (DictObj (map (\<lambda>p. (p, Num (1 / real num_pages))) (keys c))))
       else Inr (alloc h (DictObj (map (\<lambda>p. (p, Num
                    ((if p |\<in>| links then damping_factor / real num_links else 0)
                     + (1 - damping_factor) / real num_pages))) (keys c)))))))"

text \<open>\<open>transform_model\<close>: \<open>t_model\<close> is a new dictionary, filled key by key.\<close>

fun transform_loop_s ::
  "store \<Rightarrow> addr \<Rightarrow> addr \<Rightarrow> page list \<Rightarrow> real \<Rightarrow> error + store" where
  "transform_loop_s h tm t_model [] threshold = Inr h"
| "transform_loop_s h tm t_model (page # pages) threshold =
     then_do (get_num h tm page) (\<lambda>v.
     then_do (dict_set h t_model page (Interval threshold (threshold + v))) (\<lambda>h'.
       transform_loop_s h' tm t_model pages (threshold + v)))"

definition transform_model_s :: "store \<Rightarrow> addr \<Rightarrow> error + addr \<times> store" where
  "transform_model_s h tm =
     (case alloc h (DictObj []) of (t_model, h1) \<Rightarrow>
        then_do (dict_at h1 tm) (\<lambda>d.
        then_do (transform_loop_s h1 tm t_model (keys d) 0) (\<lambda>h2.
          Inr (t_model, h2))))"

fun pick_loop_s :: "store \<Rightarrow> addr \<Rightarrow> page list \<Rightarrow> real \<Rightarrow> page \<Rightarrow> error + page" where
  "pick_loop_s h model [] r page = Inr page"
| "pick_loop_s h model (p # ps) r page =
     then_do (get_interval h model p) (\<lambda>(lo, hi).
       if r \<ge> lo \<and> r < hi then Inr p else pick_loop_s h model ps r page)"

text \<open>One pass of the loop of \<open>sample_pagerank\<close>; \<open>sample\<close> and \<open>models\<close> are the
  addresses of the two local dictionaries.\<close>

definition fill_cache_s ::
  "store \<Rightarrow> addr \<Rightarrow> addr \<Rightarrow> real \<Rightarrow> page \<Rightarrow> error + store" where
  "fill_cache_s h corpus models damping_factor page =
     then_do (dict_get h models page) (\<lambda>cached.
       case cached of
         NoneVal \<Rightarrow>
           then_do (transition_model_s h corpus page damping_factor) (\<lambda>(tm, h1).
           then_do (transform_model_s h1 tm) (\<lambda>(t, h2).
             dict_set h2 models page (Ref t)))
       | _ \<Rightarrow> Inr h)"

definition sample_step_s ::
  "store \<Rightarrow> addr \<Rightarrow> addr \<Rightarrow> addr \<Rightarrow> real \<Rightarrow> real \<Rightarrow> page \<Rightarrow> error + page \<times> store" where
  "sample_step_s h corpus sample models damping_factor r page =
     then_do (fill_cache_s h corpus models damping_factor page) (\<lambda>h1.
     then_do (get_ref h1 models page) (\<lambda>model.
     then_do (dict_at h1 model) (\<lambda>m.
     then_do (pick_loop_s h1 model (keys m) r page) (\<lambda>page'.
     then_do (get_count h1 sample page') (\<lambda>count.
     then_do (dict_set h1 sample page' (Count (count + 1))) (\<lambda>h2.
       Inr (page', h2)))))))"

fun sample_loop_s ::
  "store \<Rightarrow> addr \<Rightarrow> addr \<Rightarrow> addr \<Rightarrow> real \<Rightarrow> (nat \<Rightarrow> real) \<Rightarrow> nat \<Rightarrow> nat \<Rightarrow> page
     \<Rightarrow> error + page \<times> store" where
  "sample_loop_s h corpus sample models damping_factor rnd i 0 page = Inr (page, h)"
| "sample_loop_s h corpus sample models damping_factor rnd i (Suc m) page =
     then_do (sample_step_s h corpus sample models damping_factor (rnd i) page) (\<lambda>(page', h').
       sample_loop_s h' corpus sample models damping_factor rnd (Suc i) m page')"

fun ranks_of :: "int \<Rightarrow> (page \<times> val) list \<Rightarrow> error + (page \<times> val) list" where
  "ranks_of n [] = Inr []"
| "ranks_of n ((key, v) # rest) =
     (case v of
        Count c \<Rightarrow>
          if n = 0 then Inl ZeroDivisionError
          else then_do (ranks_of n rest) (\<lambda>rs. Inr ((key, Num (real c / real_of_int n)) # rs))
      | _ \<Rightarrow> Inl TypeError)"

definition sample_pagerank_s ::
  "store \<Rightarrow> addr \<Rightarrow> real \<Rightarrow> int \<Rightarrow> nat \<Rightarrow> (nat \<Rightarrow> real) \<Rightarrow> error + addr \<times> store" where
  "sample_pagerank_s h corpus damping_factor n choice rnd =
     then_do (dict_at h corpus) (\<lambda>c.
       if keys c = [] then Inl IndexError
       else
         let page = keys c ! (choice mod length (keys c)) in
         case alloc h (DictObj (map (\<lambda>p. (p, Count (if p = page then 1 else 0))) (keys c))) of
           (sample, h1) \<Rightarrow>
         case alloc h1 (DictObj (map (\<lambda>p. (p, NoneVal)) (keys c))) of
           (models, h2) \<Rightarrow>
         then_do (sample_loop_s h2 corpus sample models damping_factor rnd 0 (nat n) page)
           (\<lambda>(page', h3).
         then_do (dict_at h3 sample) (\<lambda>s.
         then_do (ranks_of n s) (\<lambda>rs.
           Inr (alloc h3 (DictObj rs))))))"

text \<open>\<open>iterate_pagerank\<close>: \<open>all_pages\<close> is a new set, the dictionary bound to the local
  name \<open>corpus\<close> at line 110 is new, and its values are \<open>all_pages\<close> or the set objects of
  the graph themselves.\<close>

fun normalized_items :: "store \<Rightarrow> addr \<Rightarrow> (page \<times> val) list \<Rightarrow> error + (page \<times> val) list" where
  "normalized_items h all_pages [] = Inr []"
| "normalized_items h all_pages ((k, v) # rest) =
     (case v of
        Ref a \<Rightarrow>
          then_do (set_at h a) (\<lambda>s.
          then_do (normalized_items h all_pages rest) (\<lambda>items.
            Inr ((k, if fcard s = 0 then Ref all_pages else Ref a) # items)))
      | _ \<Rightarrow> Inl TypeError)"

fun lead_loop_s ::
  "store \<Rightarrow> addr \<Rightarrow> addr \<Rightarrow> page \<Rightarrow> page list \<Rightarrow> real \<Rightarrow> error + real" where
  "lead_loop_s h corpus page_rank page [] lead_pages = Inr lead_pages"
| "lead_loop_s h corpus page_rank page (p # ps) lead_pages =
     then_do (get_ref h corpus p) (\<lambda>links_ref.
     then_do (set_at h links_ref) (\<lambda>links.
       if page |\<in>| links
       then then_do (get_num h page_rank p) (\<lambda>r.
              if fcard links = 0 then Inl ZeroDivisionError
              else lead_loop_s h corpus page_rank page ps (lead_pages + r / real (fcard links)))
       else lead_loop_s h corpus page_rank page ps lead_pages))"

fun round_loop_s ::
  "store \<Rightarrow> addr \<Rightarrow> real \<Rightarrow> nat \<Rightarrow> addr \<Rightarrow> addr \<Rightarrow> page list \<Rightarrow> error + store" where
  "round_loop_s h corpus damping_factor num_pages page_rank new_pr [] = Inr h"
| "round_loop_s h corpus damping_factor num_pages page_rank new_pr (page # pages) =
     then_do (dict_at h corpus) (\<lambda>c.
     then_do (lead_loop_s h corpus page_rank page (keys c) 0) (\<lambda>lead_pages.
       if num_pages = 0 then Inl ZeroDivisionError
       else
         then_do (dict_set h new_pr page
                    (Num ((1 - damping_factor) / real num_pages + damping_factor * lead_pages)))
           (\<lambda>h'. round_loop_s h' corpus damping_factor num_pages page_rank new_pr pages)))"

fun deltas_s :: "store \<Rightarrow> addr \<Rightarrow> addr \<Rightarrow> page list \<Rightarrow> error + real list" where
  "deltas_s h page_rank new_pr [] = Inr []"
| "deltas_s h page_rank new_pr (p # ps) =
     then_do (get_num h page_rank p) (\<lambda>a.
     then_do (get_num h new_pr p) (\<lambda>b.
     then_do (deltas_s h page_rank new_pr ps) (\<lambda>ds. Inr (\<bar>a - b\<bar> # ds))))"

text \<open>The body of \<open>while True\<close> up to the test of line 121: the new dictionary
  \<open>new_pr\<close>, the store after the round, and the maximum.\<close>

definition round_s ::
  "store \<Rightarrow> addr \<Rightarrow> real \<Rightarrow> nat \<Rightarrow> addr \<Rightarrow> error + (addr \<times> store) \<times> real" where
  "round_s h corpus damping_factor num_pages page_rank =
     (case alloc h (DictObj []) of (new_pr, h1) \<Rightarrow>
        then_do (dict_at h1 page_rank) (\<lambda>pr.
        then_do (round_loop_s h1 corpus damping_factor num_pages page_rank new_pr (keys pr))
          (\<lambda>h2.
        then_do (dict_at h2 corpus) (\<lambda>c.
        then_do (deltas_s h2 page_rank new_pr (keys c)) (\<lambda>ds.
        then_do (py_max ds) (\<lambda>m. Inr ((new_pr, h2), m)))))))"

partial_function (option)
  pr_while_s :: "store \<Rightarrow> addr \<Rightarrow> real \<Rightarrow> nat \<Rightarrow> addr \<Rightarrow> (error + addr \<times> store) option" where
  "pr_while_s h corpus damping_factor num_pages page_rank =
     (case round_s h corpus damping_factor num_pages page_rank of
        Inl e \<Rightarrow> Some (Inl e)
      | Inr ((new_pr, h'), m) \<Rightarrow>
          if m \<le> 1 / 1000 then Some (Inr (new_pr, h'))
          else pr_while_s h' corpus damping_factor num_pages new_pr)"

declare pr_while_s.simps [code]

definition iterate_pagerank_s ::
  "store \<Rightarrow> addr \<Rightarrow> real \<Rightarrow> (error + addr \<times> store) option" where
  "iterate_pagerank_s h corpus0 damping_factor =
     (case dict_at h corpus0 of
        Inl e \<Rightarrow> Some (Inl e)
      | Inr c \<Rightarrow>
         (case alloc h (SetObj (fset_of_list (keys c))) of (all_pages, h1) \<Rightarrow>
            (case normalized_items h1 all_pages c of
               Inl e \<Rightarrow> Some (Inl e)
             | Inr items \<Rightarrow>
                (case alloc h1 (DictObj items) of (corpus, h2) \<Rightarrow>
                   (case alloc h2 (DictObj (map (\<lambda>p. (p, Num (1 / real (length items))))
                                              (keys items))) of
                      (page_rank, h3) \<Rightarrow>
                        pr_while_s h3 corpus damping_factor (length items) page_rank)))))"

text \<open>A graph in the store: the set objects first, then the dictionary.\<close>

definition store_of :: "corpus \<Rightarrow> store" where
  "store_of c =
     map (\<lambda>(k, v). SetObj v) c @ [DictObj (map (\<lambda>i. (fst (c ! i), Ref i)) [0..<length c])]"

text \<open>The first \<open>n\<close> objects of the store are the same before and after, and no
  object was removed.\<close>

definition unchanged :: "nat \<Rightarrow> store \<Rightarrow> store \<Rightarrow> bool" where
  "unchanged n h h' = (length h \<le> length h' \<and> take n h' = take n h)"

text \<open>How the store holds the values of the first model: a dictionary of numbers, of
  counters or of intervals; the graph (\<open>graph_at\<close>), with each value of its dictionary a
  reference to a set object; the two local dictionaries of \<open>sample_pagerank\<close>
  (\<open>sampler_at\<close>), the cache holding \<open>None\<close> or a reference to a dictionary of
  intervals. \<open>same_except b\<close>: two stores that differ at most in the dictionary at
  address \<open>b\<close>.\<close>

definition num_dict :: "dist \<Rightarrow> (page \<times> val) list" where
  "num_dict t = map (\<lambda>(p, x). (p, Num x)) t"

definition links_rel :: "store \<Rightarrow> page \<times> val \<Rightarrow> page \<times> page fset \<Rightarrow> bool" where
  "links_rel h e e' = (fst e = fst e' \<and> (\<exists>r. snd e = Ref r \<and> set_at h r = Inr (snd e')))"

definition graph_at :: "store \<Rightarrow> addr \<Rightarrow> corpus \<Rightarrow> bool" where
  "graph_at h a c = (\<exists>d. dict_at h a = Inr d \<and> list_all2 (links_rel h) d c)"

definition same_except :: "addr \<Rightarrow> store \<Rightarrow> store \<Rightarrow> bool" where
  "same_except b h h' =
     (length h' = length h \<and> (\<forall>x. x \<noteq> b \<longrightarrow> h' ! x = h ! x)
      \<and> (\<exists>d. dict_at h b = Inr d) \<and> (\<exists>d. dict_at h' b = Inr d))"

definition count_dict :: "(page \<times> nat) list \<Rightarrow> (page \<times> val) list" where
  "count_dict s = map (\<lambda>(p, c). (p, Count c)) s"

definition iv_dict :: "intervals \<Rightarrow> (page \<times> val) list" where
  "iv_dict t = map (\<lambda>(p, lo, hi). (p, Interval lo hi)) t"

definition cache_rel ::
  "store \<Rightarrow> addr \<Rightarrow> addr \<Rightarrow> page \<times> val \<Rightarrow> page \<times> intervals option \<Rightarrow> bool" where
  "cache_rel h s m e e' =
     (fst e = fst e' \<and>
      (case snd e' of
         None \<Rightarrow> snd e = NoneVal
       | Some t \<Rightarrow> \<exists>r. snd e = Ref r \<and> r \<noteq> s \<and> r \<noteq> m \<and> dict_at h r = Inr (iv_dict t)))"

definition sampler_at ::
  "store \<Rightarrow> addr \<Rightarrow> addr \<Rightarrow> addr \<Rightarrow> corpus \<Rightarrow> (page \<times> nat) list
     \<Rightarrow> (page \<times> intervals option) list \<Rightarrow> bool" where
  "sampler_at h corpus s m c sample models =
     (graph_at h corpus c \<and> dict_at h s = Inr (count_dict sample)
      \<and> (\<exists>md. dict_at h m = Inr md \<and> list_all2 (cache_rel h s m) md models)
      \<and> s \<noteq> m \<and> s \<noteq> corpus \<and> m \<noteq> corpus)"

text \<open>The invariant of the loop of \<open>sample_pagerank\<close>, and the sum of the counters.\<close>

definition sampler_inv :: "corpus \<Rightarrow> sampler \<Rightarrow> bool" where
  "sampler_inv corpus st =
     (case st of (page, sample, models) \<Rightarrow>
        page \<in> set (keys corpus) \<and> keys sample = keys corpus \<and> keys models = keys corpus
        \<and> (\<forall>p t. map_of models p = Some (Some t) \<longrightarrow> set (keys t) \<subseteq> set (keys corpus)))"

definition total :: "(page \<times> nat) list \<Rightarrow> nat" where
  "total sample = sum_list (map snd sample)"

subsection \<open>Example graphs\<close>

text \<open>One page without links; two pages that link to each other; a page that links to a
  dangling page; and six pages, three of which are linked by nobody and feed two hubs
  that both link to one target.\<close>

definition single_page :: corpus where
  "single_page = [(''A'', {||})]"

definition two_cycle :: corpus where
  "two_cycle = [(''A'', {|''B''|}), (''B'', {|''A''|})]"

definition dangling_pair :: corpus where
  "dangling_pair = [(''A'', {|''B''|}), (''B'', {||})]"

definition hub_graph :: corpus where
  "hub_graph =
     [(''a'', {|''h''|}), (''b'', {|''k''|}), (''c'', {|''h'', ''k''|}),
      (''h'', {|''t''|}), (''k'', {|''t''|}), (''t'', {|''h'', ''k''|})]"

text \<open>Four pages on which the double-precision loop runs in a circle when the damping
  factor is \<open>1 - 2 ^ - 53\<close>, the largest double below 1: the ranks it starts from, and the
  ranks after one and after two rounds.\<close>

definition ring_graph :: corpus where
  "ring_graph =
     [(''a'', {|''b''|}), (''b'', {|''c''|}), (''c'', {|''d'', ''a''|}), (''d'', {|''b''|})]"

definition near_one :: real where
  "near_one = 1 - 1 / 2 ^ 53"

definition ring_start :: dist where
  "ring_start = [(''a'', 1/4), (''b'', 1/4), (''c'', 1/4), (''d'', 1/4)]"

definition ring_first :: dist where
  "ring_first = [(''a'', 1/8), (''b'', 1/2), (''c'', 1/4), (''d'', 1/8)]"

definition ring_second :: dist where
  "ring_second = [(''a'', 1/8), (''b'', 1/4), (''c'', 1/2), (''d'', 1/8)]"

section \<open>Properties\<close>

subsection \<open>Dictionaries\<close>

lemma lookup_in_dict:
  "is_dict d \<Longrightarrow> (k, v) \<in> set d \<Longrightarrow> lookup d k = Inr v"
  by (simp add: lookup_def is_dict_def)

lemma lookup_missing:
  "k \<notin> set (keys d) \<Longrightarrow> lookup d k = Inl (KeyError k)"
proof -
  assume "k \<notin> set (keys d)"
  then have "map_of d k = None"
    by (simp add: map_of_eq_None_iff keys_def)
  then show ?thesis
    by (simp add: lookup_def)
qed

lemma lookup_key:
  "k \<in> set (keys d) \<Longrightarrow> \<exists>v. lookup d k = Inr v \<and> (k, v) \<in> set d"
  by (cases "map_of d k") (auto simp: lookup_def keys_def map_of_eq_None_iff dest: map_of_SomeD)

lemma lookup_tabulate:
  "k \<in> set ks \<Longrightarrow> lookup (map (\<lambda>p. (p, f p)) ks) k = Inr (f k)"
  by (induction ks) (auto simp: lookup_def)

lemma keys_tabulate [simp]: "keys (map (\<lambda>p. (p, f p)) ks) = ks"
  by (simp add: keys_def comp_def)

subsection \<open>Counting the links of a page among the keys\<close>

lemma count_links:
  assumes "distinct ks" and "fset links \<subseteq> set ks"
  shows "length (filter (\<lambda>p. p |\<in>| links) ks) = fcard links"
proof -
  have "distinct (filter (\<lambda>p. p |\<in>| links) ks)"
    using assms(1) by simp
  then have "length (filter (\<lambda>p. p |\<in>| links) ks) = card (set (filter (\<lambda>p. p |\<in>| links) ks))"
    by (rule distinct_card [symmetric])
  also have "set (filter (\<lambda>p. p |\<in>| links) ks) = fset links"
    using assms(2) by auto
  finally show ?thesis
    by (simp add: fcard.rep_eq)
qed

lemma sum_list_indicator:
  "sum_list (map (\<lambda>p. (if P p then (a::real) else 0) + b) ks)
     = a * real (length (filter P ks)) + b * real (length ks)"
  by (induction ks) (simp_all add: algebra_simps)

subsection \<open>The transition model\<close>

lemma transition_model_sum:
  assumes "is_dict corpus" and "(page, links) \<in> set corpus"
    and "fset links \<subseteq> set (keys corpus)"
    and "transition_model corpus page d = Inr t"
  shows "sum_list (map snd t) = 1"
proof -
  have lk: "lookup corpus page = Inr links"
    using assms(1,2) by (rule lookup_in_dict)
  have ne: "corpus \<noteq> []"
    using assms(2) by auto
  then have N: "real (length corpus) \<noteq> 0"
    by simp
  show ?thesis
  proof (cases "fcard links = 0")
    case True
    then have "t = map (\<lambda>p. (p, 1 / real (length corpus))) (keys corpus)"
      using assms(4) lk by (simp add: transition_model_def)
    then have "sum_list (map snd t) = real (length corpus) * (1 / real (length corpus))"
      by (simp add: comp_def sum_list_triv keys_def)
    then show ?thesis
      using N by simp
  next
    case False
    then have L: "real (fcard links) \<noteq> 0"
      by simp
    have cnt: "length (filter (\<lambda>p. p |\<in>| links) (keys corpus)) = fcard links"
      using assms(1,3) by (intro count_links) (simp_all add: is_dict_def keys_def)
    have "t = map (\<lambda>p. (p, (if p |\<in>| links then d / real (fcard links) else 0)
                             + (1 - d) / real (length corpus))) (keys corpus)"
      using assms(4) lk False by (simp add: transition_model_def)
    then have "sum_list (map snd t)
        = d / real (fcard links) * real (fcard links)
          + (1 - d) / real (length corpus) * real (length corpus)"
      by (simp add: comp_def sum_list_indicator cnt) (simp add: keys_def)
    then show ?thesis
      using N L by simp
  qed
qed

text \<open>
  Claim C1. For a graph that satisfies the graph invariant, a page \<open>p\<close> that is a key and
  a damping factor in \<open>(0,1)\<close>, \<open>transition_model\<close> returns a mapping whose keys are exactly
  the pages of the graph; if \<open>p\<close> has no outlinks every page gets \<open>1/N\<close>; otherwise page \<open>q\<close>
  gets \<open>d/L\<close> if it is among the outlinks of \<open>p\<close>, plus \<open>(1-d)/N\<close> in every case; the
  values sum to 1.
\<close>

theorem transition_model_distribution:
  assumes "is_dict corpus" and "graph_invariant corpus"
    and "(p, links) \<in> set corpus" and "0 < d" and "d < 1"
  shows "\<exists>t. transition_model corpus p d = Inr t
           \<and> keys t = keys corpus
           \<and> (links = {||} \<longrightarrow>
                (\<forall>q \<in> set (keys corpus). lookup t q = Inr (1 / real (length corpus))))
           \<and> (links \<noteq> {||} \<longrightarrow>
                (\<forall>q \<in> set (keys corpus). lookup t q =
                   Inr ((if q |\<in>| links then d / real (fcard links) else 0)
                        + (1 - d) / real (length corpus))))
           \<and> sum_list (map snd t) = 1"
proof -
  have lk: "lookup corpus p = Inr links"
    using assms(1,3) by (rule lookup_in_dict)
  have sub: "fset links \<subseteq> set (keys corpus)"
    using assms(2,3) by (auto simp: graph_invariant_def)
  let ?N = "real (length corpus)"
  let ?u = "map (\<lambda>q. (q, 1 / ?N)) (keys corpus)"
  let ?v = "map (\<lambda>q. (q, (if q |\<in>| links then d / real (fcard links) else 0) + (1 - d) / ?N))
                (keys corpus)"
  have tm: "transition_model corpus p d = Inr (if links = {||} then ?u else ?v)"
    using lk by (simp add: transition_model_def)
  define t where "t = (if links = {||} then ?u else ?v)"
  have t: "transition_model corpus p d = Inr t"
    using tm by (simp add: t_def)
  have "keys t = keys corpus"
    by (simp add: t_def)
  moreover have "links = {||} \<longrightarrow>
      (\<forall>q \<in> set (keys corpus). lookup t q = Inr (1 / real (length corpus)))"
    by (simp add: t_def lookup_tabulate)
  moreover have "links \<noteq> {||} \<longrightarrow>
      (\<forall>q \<in> set (keys corpus). lookup t q =
         Inr ((if q |\<in>| links then d / real (fcard links) else 0)
              + (1 - d) / real (length corpus)))"
    by (simp add: t_def lookup_tabulate)
  moreover have "sum_list (map snd t) = 1"
    using assms(1,3) sub t by (rule transition_model_sum)
  ultimately show ?thesis
    using t by blast
qed

theorem transition_model_distribution_witness:
  "transition_model [(''A'', {|''B''|}), (''B'', {||})] ''A'' (1/2)
      = Inr [(''A'', 1/4), (''B'', 3/4)]
   \<and> transition_model [(''A'', {|''B''|}), (''B'', {||})] ''B'' (1/2)
      = Inr [(''A'', 1/2), (''B'', 1/2)]"
proof -
  let ?c = "[(''A'', {|''B''|}), (''B'', {||})] :: corpus"
  have d: "is_dict ?c"
    by (simp add: is_dict_def)
  have g: "graph_invariant ?c"
    by (simp add: graph_invariant_def keys_def)
  have a: "(''A'', {|''B''|}) \<in> set ?c" and b: "(''B'', {||}) \<in> set ?c"
    by simp_all
  have h: "(0::real) < 1/2" "(1/2::real) < 1"
    by simp_all
  from transition_model_distribution [OF d g a h]
  obtain t where t: "transition_model ?c ''A'' (1/2) = Inr t"
    and ta: "\<forall>q \<in> set (keys ?c). lookup t q =
               Inr ((if q |\<in>| {|''B''|} then (1/2) / real (fcard {|''B''|}) else 0)
                    + (1 - 1/2) / real (length ?c))"
    and kt: "keys t = keys ?c"
    by auto
  from transition_model_distribution [OF d g b h]
  obtain u where u: "transition_model ?c ''B'' (1/2) = Inr u"
    and ub: "\<forall>q \<in> set (keys ?c). lookup u q = Inr (1 / real (length ?c))"
    and ku: "keys u = keys ?c"
    by auto
  have "t = [(''A'', 1/4), (''B'', 3/4)]"
    using t by (simp add: transition_model_def lookup_def keys_def fcard_finsert_if fcard_fempty)
  moreover have "u = [(''A'', 1/2), (''B'', 1/2)]"
    using u by (simp add: transition_model_def lookup_def keys_def)
  ultimately show ?thesis
    using t u by simp
qed

text \<open>
  Claim C8. For every graph and every page \<open>p\<close> that is not a key of the graph,
  \<open>transition_model\<close> raises an error (the \<open>KeyError\<close> of the lookup \<open>corpus[page]\<close>)
  and returns no distribution.
\<close>

theorem transition_model_key_error:
  assumes "p \<notin> set (keys corpus)"
  shows "transition_model corpus p d = Inl (KeyError p)"
  using assms by (simp add: transition_model_def lookup_missing)

theorem transition_model_key_error_witness:
  "''C'' \<notin> set (keys [(''A'', {|''B''|}), (''B'', {||})])
   \<and> transition_model [(''A'', {|''B''|}), (''B'', {||})] ''C'' (17/20) = Inl (KeyError ''C'')"
  using transition_model_key_error [of "''C''" "[(''A'', {|''B''|}), (''B'', {||})]" "17/20"]
  by (simp add: keys_def)

subsection \<open>The loops of \<open>iterate_pagerank\<close> compute the recurrence\<close>

lemma update_fresh:
  "k \<notin> set (keys al) \<Longrightarrow> AList.update k v al = al @ [(k, v)]"
  by (induction al) (auto simp: keys_def)

lemma lookup_as_dict:
  "k \<in> set ks \<Longrightarrow> lookup (as_dict ks f) k = Inr (f k)"
  by (simp add: as_dict_def lookup_tabulate)

lemma keys_as_dict [simp]: "keys (as_dict ks f) = ks"
  by (simp add: as_dict_def)

lemma lead_loop_eq:
  assumes "\<forall>q \<in> set ks. lookup nc q = Inr (L q) \<and> lookup pr q = Inr (R q)"
  shows "lead_loop nc pr page ks acc =
           Inr (acc + (\<Sum>q\<leftarrow>ks. if page |\<in>| L q then R q / real (fcard (L q)) else 0))"
  using assms
proof (induction ks arbitrary: acc)
  case Nil
  then show ?case by simp
next
  case (Cons q ks)
  have ne: "page |\<in>| L q \<Longrightarrow> fcard (L q) \<noteq> 0"
    by auto
  from Cons show ?case
    using ne by (simp add: algebra_simps)
qed

lemma round_loop_eq:
  assumes "N \<noteq> 0"
    and "\<forall>p \<in> set ps. lead_loop nc pr p (keys nc) 0 = Inr (lead p)"
    and "distinct ps" and "set ps \<inter> set (keys acc) = {}"
  shows "round_loop nc d N pr ps acc =
           Inr (acc @ as_dict ps (\<lambda>p. (1 - d) / real N + d * lead p))"
  using assms(2-)
proof (induction ps arbitrary: acc)
  case Nil
  then show ?case by (simp add: as_dict_def)
next
  case (Cons p ps)
  have fresh: "p \<notin> set (keys acc)"
    using Cons.prems(3) by auto
  let ?acc = "acc @ [(p, (1 - d) / real N + d * lead p)]"
  have "set ps \<inter> set (keys ?acc) = {}"
    using Cons.prems(2,3) by (auto simp: keys_def)
  with Cons have "round_loop nc d N pr ps ?acc =
      Inr (?acc @ as_dict ps (\<lambda>p. (1 - d) / real N + d * lead p))"
    by simp
  then show ?case
    using Cons.prems(1) assms(1) fresh by (simp add: update_fresh as_dict_def)
qed

lemma deltas_eq:
  assumes "\<forall>p \<in> set ks. lookup pr p = Inr (R p) \<and> lookup pr' p = Inr (R' p)"
  shows "deltas pr pr' ks = Inr (map (\<lambda>p. \<bar>R p - R' p\<bar>) ks)"
  using assms by (induction ks) simp_all

lemma py_max_eq:
  "xs \<noteq> [] \<Longrightarrow> py_max xs = Inr (Max (set xs))"
  by (cases xs) (simp_all add: Max.set_eq_fold [symmetric])

subsection \<open>The normalised graph\<close>

lemma keys_normalized [simp]: "keys (normalized_corpus c) = keys c"
  by (simp add: normalized_corpus_def keys_def comp_def case_prod_unfold)

lemma length_normalized [simp]: "length (normalized_corpus c) = length c"
  by (simp add: normalized_corpus_def)

lemma length_keys [simp]: "length (keys c) = length c"
  by (simp add: keys_def)

lemma lookup_normalized:
  assumes "q \<in> set (keys c)"
  shows "lookup (normalized_corpus c) q = Inr (spec_outlinks c q)"
proof -
  obtain v where v: "map_of c q = Some v"
    using assms by (cases "map_of c q") (auto simp: keys_def map_of_eq_None_iff)
  have "map_of (normalized_corpus c) q
          = map_option (\<lambda>v. if fcard v = 0 then fset_of_list (keys c) else v) (map_of c q)"
    by (simp add: normalized_corpus_def map_of_map)
  then show ?thesis
    using v by (simp add: lookup_def spec_outlinks_def)
qed

lemma sum_list_filtered:
  assumes "distinct ks"
  shows "(\<Sum>q\<leftarrow>ks. if P q then (g q :: real) else 0) = (\<Sum>q \<in> {q \<in> set ks. P q}. g q)"
proof -
  have "(\<Sum>q\<leftarrow>ks. if P q then g q else 0) = (\<Sum>q \<in> set ks. if P q then g q else 0)"
    using assms by (rule sum_list_distinct_conv_sum_set)
  also have "\<dots> = (\<Sum>q \<in> {q \<in> set ks. P q}. g q)"
    by (simp add: sum.inter_filter)
  finally show ?thesis .
qed

lemma round_loop_new_rank:
  assumes "is_dict c" and "c \<noteq> []"
  shows "round_loop (normalized_corpus c) d (length c) (as_dict (keys c) R) (keys c) []
           = Inr (as_dict (keys c) (spec_new_rank c d R))"
proof -
  let ?nc = "normalized_corpus c" and ?ks = "keys c"
  have dist: "distinct ?ks"
    using assms(1) by (simp add: is_dict_def keys_def)
  have look: "\<forall>q \<in> set ?ks. lookup ?nc q = Inr (spec_outlinks c q)
                \<and> lookup (as_dict ?ks R) q = Inr (R q)"
    by (simp add: lookup_normalized lookup_as_dict)
  have lead: "lead_loop ?nc (as_dict ?ks R) p (keys ?nc) 0 =
      Inr (\<Sum>q \<in> {q \<in> set ?ks. p |\<in>| spec_outlinks c q}.
             R q / real (fcard (spec_outlinks c q)))" for p
    using lead_loop_eq [OF look, of p 0] dist by (simp add: sum_list_filtered)
  have "round_loop ?nc d (length c) (as_dict ?ks R) ?ks [] =
      Inr ([] @ as_dict ?ks (\<lambda>p. (1 - d) / real (length c)
             + d * (\<Sum>q \<in> {q \<in> set ?ks. p |\<in>| spec_outlinks c q}.
                      R q / real (fcard (spec_outlinks c q)))))"
    using assms(2) dist lead by (intro round_loop_eq) (simp_all add: keys_def)
  then show ?thesis
    by (simp add: spec_new_rank_def [abs_def])
qed

lemma deltas_as_dict:
  "deltas (as_dict (keys c) R) (as_dict (keys c) R') (keys c)
     = Inr (map (\<lambda>p. \<bar>R p - R' p\<bar>) (keys c))"
  by (rule deltas_eq) (simp add: lookup_as_dict)

lemma max_delta_as_dict:
  assumes "c \<noteq> []"
  shows "max_delta (normalized_corpus c) (as_dict (keys c) R) (as_dict (keys c) R')
           = Inr (linf c R R')"
proof -
  have "map (\<lambda>p. \<bar>R p - R' p\<bar>) (keys c) \<noteq> []"
    using assms by (simp add: keys_def)
  then show ?thesis
    by (simp add: max_delta_def deltas_as_dict py_max_eq linf_def)
qed

lemma pr_while_step:
  assumes "is_dict c" and "c \<noteq> []"
  shows "pr_while (normalized_corpus c) d (length c) (as_dict (keys c) R) =
           (if linf c R (spec_new_rank c d R) \<le> 1 / 1000
            then Some (Inr (as_dict (keys c) (spec_new_rank c d R)))
            else pr_while (normalized_corpus c) d (length c)
                   (as_dict (keys c) (spec_new_rank c d R)))"
  by (subst pr_while.simps)
     (simp add: round_loop_new_rank [OF assms] max_delta_as_dict [OF assms(2)])

subsection \<open>One round: contraction, lower bound, sum\<close>

lemma double_count:
  fixes w :: "page \<Rightarrow> real"
  assumes "finite P"
  shows "(\<Sum>p \<in> P. \<Sum>q \<in> {q \<in> P. p |\<in>| L q}. w q)
           = (\<Sum>q \<in> P. w q * real (card {p \<in> P. p |\<in>| L q}))"
proof -
  have "(\<Sum>p \<in> P. \<Sum>q \<in> {q \<in> P. p |\<in>| L q}. w q)
          = (\<Sum>p \<in> P. \<Sum>q \<in> P. if p |\<in>| L q then w q else 0)"
    using assms by (simp add: sum.inter_filter)
  also have "\<dots> = (\<Sum>q \<in> P. \<Sum>p \<in> P. if p |\<in>| L q then w q else 0)"
    by (rule sum.swap)
  also have "\<dots> = (\<Sum>q \<in> P. w q * real (card {p \<in> P. p |\<in>| L q}))"
  proof (rule sum.cong)
    fix q
    have "(\<Sum>p \<in> P. if p |\<in>| L q then w q else 0) = (\<Sum>p \<in> {p \<in> P. p |\<in>| L q}. w q)"
      using assms by (rule sum.inter_filter [symmetric])
    then show "(\<Sum>p \<in> P. if p |\<in>| L q then w q else 0)
                 = w q * real (card {p \<in> P. p |\<in>| L q})"
      by (simp add: mult.commute)
  qed simp
  finally show ?thesis .
qed

lemma card_linked_le:
  "finite P \<Longrightarrow> card {p \<in> P. p |\<in>| A} \<le> fcard A"
  unfolding fcard.rep_eq by (rule card_mono) auto

lemma card_linked_eq:
  assumes "fset A \<subseteq> P"
  shows "card {p \<in> P. p |\<in>| A} = fcard A"
proof -
  have "{p \<in> P. p |\<in>| A} = fset A"
    using assms by auto
  then show ?thesis
    by (simp add: fcard.rep_eq)
qed

lemma spec_new_rank_diff:
  "spec_new_rank c d R p - spec_new_rank c d R' p =
     d * (\<Sum>q \<in> {q \<in> set (keys c). p |\<in>| spec_outlinks c q}.
            (R q - R' q) / real (fcard (spec_outlinks c q)))"
  by (simp add: spec_new_rank_def sum_subtractf diff_divide_distrib right_diff_distrib)

lemma l1_contraction:
  assumes "0 \<le> d"
  shows "l1 c (spec_new_rank c d R) (spec_new_rank c d R') \<le> d * l1 c R R'"
proof -
  let ?P = "set (keys c)" and ?L = "spec_outlinks c"
  let ?w = "\<lambda>q. \<bar>R q - R' q\<bar> / real (fcard (?L q))"
  have pointwise: "\<bar>spec_new_rank c d R p - spec_new_rank c d R' p\<bar>
      \<le> d * (\<Sum>q \<in> {q \<in> ?P. p |\<in>| ?L q}. ?w q)" for p
  proof -
    have "\<bar>\<Sum>q \<in> {q \<in> ?P. p |\<in>| ?L q}. (R q - R' q) / real (fcard (?L q))\<bar>
        \<le> (\<Sum>q \<in> {q \<in> ?P. p |\<in>| ?L q}. \<bar>(R q - R' q) / real (fcard (?L q))\<bar>)"
      by (rule sum_abs)
    then have "d * \<bar>\<Sum>q \<in> {q \<in> ?P. p |\<in>| ?L q}. (R q - R' q) / real (fcard (?L q))\<bar>
        \<le> d * (\<Sum>q \<in> {q \<in> ?P. p |\<in>| ?L q}. ?w q)"
      using assms by (intro mult_left_mono) simp_all
    then show ?thesis
      using assms by (simp add: spec_new_rank_diff abs_mult)
  qed
  have bound: "?w q * real (card {p \<in> ?P. p |\<in>| ?L q}) \<le> \<bar>R q - R' q\<bar>" for q
  proof (cases "fcard (?L q) = 0")
    case True
    then show ?thesis by simp
  next
    case False
    have "real (card {p \<in> ?P. p |\<in>| ?L q}) \<le> real (fcard (?L q))"
      by (simp add: card_linked_le)
    then have "?w q * real (card {p \<in> ?P. p |\<in>| ?L q}) \<le> ?w q * real (fcard (?L q))"
      by (intro mult_left_mono) simp_all
    also have "\<dots> = \<bar>R q - R' q\<bar>"
      using False by simp
    finally show ?thesis .
  qed
  have "l1 c (spec_new_rank c d R) (spec_new_rank c d R')
      \<le> (\<Sum>p \<in> ?P. d * (\<Sum>q \<in> {q \<in> ?P. p |\<in>| ?L q}. ?w q))"
    unfolding l1_def by (intro sum_mono pointwise)
  also have "\<dots> = d * (\<Sum>p \<in> ?P. \<Sum>q \<in> {q \<in> ?P. p |\<in>| ?L q}. ?w q)"
    by (simp add: sum_distrib_left)
  also have "\<dots> = d * (\<Sum>q \<in> ?P. ?w q * real (card {p \<in> ?P. p |\<in>| ?L q}))"
    by (simp add: double_count)
  also have "\<dots> \<le> d * (\<Sum>q \<in> ?P. \<bar>R q - R' q\<bar>)"
    using assms by (intro mult_left_mono sum_mono bound)
  finally show ?thesis
    by (simp add: l1_def)
qed

lemma spec_new_rank_lower:
  assumes "0 \<le> d" and "\<forall>q \<in> set (keys c). 0 \<le> R q"
  shows "(1 - d) / real (length c) \<le> spec_new_rank c d R p"
proof -
  have "0 \<le> (\<Sum>q \<in> {q \<in> set (keys c). p |\<in>| spec_outlinks c q}.
              R q / real (fcard (spec_outlinks c q)))"
    using assms(2) by (intro sum_nonneg) simp
  then show ?thesis
    using assms(1) by (simp add: spec_new_rank_def)
qed

lemma spec_new_rank_sum:
  assumes "is_dict c" and "c \<noteq> []"
    and "\<forall>q \<in> set (keys c). fset (spec_outlinks c q) \<subseteq> set (keys c)
                               \<and> spec_outlinks c q \<noteq> {||}"
  shows "(\<Sum>p \<in> set (keys c). spec_new_rank c d R p)
           = (1 - d) + d * (\<Sum>q \<in> set (keys c). R q)"
proof -
  let ?P = "set (keys c)" and ?L = "spec_outlinks c"
  let ?w = "\<lambda>q. R q / real (fcard (?L q))"
  have cardP: "card ?P = length c"
    using assms(1) distinct_card [of "map fst c"] by (simp add: is_dict_def keys_def)
  have N: "real (length c) \<noteq> 0"
    using assms(2) by simp
  have bound: "?w q * real (card {p \<in> ?P. p |\<in>| ?L q}) = R q" if "q \<in> ?P" for q
  proof -
    have "card {p \<in> ?P. p |\<in>| ?L q} = fcard (?L q)"
      using assms(3) that by (intro card_linked_eq) simp
    moreover have "fcard (?L q) \<noteq> 0"
      using assms(3) that by simp
    ultimately show ?thesis
      by simp
  qed
  have "(\<Sum>p \<in> ?P. spec_new_rank c d R p)
      = (\<Sum>p \<in> ?P. (1 - d) / real (length c))
        + d * (\<Sum>p \<in> ?P. \<Sum>q \<in> {q \<in> ?P. p |\<in>| ?L q}. ?w q)"
    by (simp add: spec_new_rank_def sum.distrib sum_distrib_left)
  also have "(\<Sum>p \<in> ?P. (1 - d) / real (length c)) = 1 - d"
    using N by (simp add: cardP)
  also have "(\<Sum>p \<in> ?P. \<Sum>q \<in> {q \<in> ?P. p |\<in>| ?L q}. ?w q)
      = (\<Sum>q \<in> ?P. ?w q * real (card {p \<in> ?P. p |\<in>| ?L q}))"
    by (simp add: double_count)
  also have "\<dots> = (\<Sum>q \<in> ?P. R q)"
    by (intro sum.cong refl bound)
  finally show ?thesis .
qed

lemma linf_le_l1:
  assumes "c \<noteq> []"
  shows "linf c R R' \<le> l1 c R R'"
proof -
  let ?f = "\<lambda>p. \<bar>R p - R' p\<bar>"
  have ne: "?f ` set (keys c) \<noteq> {}"
    using assms by (simp add: keys_def)
  have "\<forall>x \<in> ?f ` set (keys c). x \<le> l1 c R R'"
  proof
    fix x assume "x \<in> ?f ` set (keys c)"
    then obtain p where p: "p \<in> set (keys c)" and x: "x = ?f p"
      by auto
    have "?f p \<le> (\<Sum>p \<in> set (keys c). ?f p)"
      using p by (intro member_le_sum) simp_all
    then show "x \<le> l1 c R R'"
      by (simp add: x l1_def)
  qed
  then show ?thesis
    unfolding linf_def using ne by simp
qed

subsection \<open>The loop leaves after finitely many rounds\<close>

lemma pr_while_converges:
  assumes "is_dict c" and "c \<noteq> []" and "0 \<le> d"
    and "d ^ m * l1 c R (spec_new_rank c d R) \<le> 1 / 1000"
  shows "\<exists>k\<le>m. pr_while (normalized_corpus c) d (length c) (as_dict (keys c) R)
                   = Some (Inr (as_dict (keys c) ((spec_new_rank c d ^^ Suc k) R)))
               \<and> linf c ((spec_new_rank c d ^^ k) R) ((spec_new_rank c d ^^ Suc k) R) \<le> 1 / 1000
               \<and> (\<forall>j<k. 1 / 1000 <
                      linf c ((spec_new_rank c d ^^ j) R) ((spec_new_rank c d ^^ Suc j) R))"
  using assms(4)
proof (induction m arbitrary: R)
  case 0
  let ?F = "spec_new_rank c d"
  have "linf c R (?F R) \<le> l1 c R (?F R)"
    using assms(2) by (rule linf_le_l1)
  with 0 have conv: "linf c R (?F R) \<le> 1 / 1000"
    by simp
  then have "pr_while (normalized_corpus c) d (length c) (as_dict (keys c) R)
      = Some (Inr (as_dict (keys c) (?F R)))"
    by (simp add: pr_while_step [OF assms(1,2)])
  with conv show ?case
    by simp
next
  case (Suc m)
  let ?F = "spec_new_rank c d"
  show ?case
  proof (cases "linf c R (?F R) \<le> 1 / 1000")
    case True
    then have "pr_while (normalized_corpus c) d (length c) (as_dict (keys c) R)
        = Some (Inr (as_dict (keys c) (?F R)))"
      by (simp add: pr_while_step [OF assms(1,2)])
    with True have "pr_while (normalized_corpus c) d (length c) (as_dict (keys c) R)
                   = Some (Inr (as_dict (keys c) ((?F ^^ Suc 0) R)))
               \<and> linf c ((?F ^^ 0) R) ((?F ^^ Suc 0) R) \<le> 1 / 1000
               \<and> (\<forall>j<0. 1 / 1000 < linf c ((?F ^^ j) R) ((?F ^^ Suc j) R))"
      by simp
    then show ?thesis
      by blast
  next
    case False
    then have unfold: "pr_while (normalized_corpus c) d (length c) (as_dict (keys c) R)
        = pr_while (normalized_corpus c) d (length c) (as_dict (keys c) (?F R))"
      by (simp add: pr_while_step [OF assms(1,2)])
    have "l1 c (?F R) (?F (?F R)) \<le> d * l1 c R (?F R)"
      using assms(3) by (rule l1_contraction)
    then have "d ^ m * l1 c (?F R) (?F (?F R)) \<le> d ^ m * (d * l1 c R (?F R))"
      using assms(3) by (intro mult_left_mono) simp_all
    also have "\<dots> = d ^ Suc m * l1 c R (?F R)"
      by simp
    finally have "d ^ m * l1 c (?F R) (?F (?F R)) \<le> 1 / 1000"
      using Suc.prems by simp
    from Suc.IH [OF this] obtain k where k: "k \<le> m"
      and res: "pr_while (normalized_corpus c) d (length c) (as_dict (keys c) (?F R))
                  = Some (Inr (as_dict (keys c) ((?F ^^ Suc k) (?F R))))"
      and conv: "linf c ((?F ^^ k) (?F R)) ((?F ^^ Suc k) (?F R)) \<le> 1 / 1000"
      and before: "\<forall>j<k. 1 / 1000 < linf c ((?F ^^ j) (?F R)) ((?F ^^ Suc j) (?F R))"
      by blast
    have shift: "(?F ^^ n) (?F R) = (?F ^^ Suc n) R" for n
      by (simp add: funpow_swap1)
    have "\<forall>j<Suc k. 1 / 1000 < linf c ((?F ^^ j) R) ((?F ^^ Suc j) R)"
    proof (intro allI impI)
      fix j assume j: "j < Suc k"
      show "1 / 1000 < linf c ((?F ^^ j) R) ((?F ^^ Suc j) R)"
      proof (cases j)
        case 0
        then show ?thesis using False by simp
      next
        case (Suc i)
        then have "i < k" using j by simp
        with before have "1 / 1000 < linf c ((?F ^^ i) (?F R)) ((?F ^^ Suc i) (?F R))"
          by blast
        then show ?thesis
          unfolding shift Suc .
      qed
    qed
    moreover have "pr_while (normalized_corpus c) d (length c) (as_dict (keys c) R)
        = Some (Inr (as_dict (keys c) ((?F ^^ Suc (Suc k)) R)))"
      using unfold res unfolding shift by simp
    moreover have "linf c ((?F ^^ Suc k) R) ((?F ^^ Suc (Suc k)) R) \<le> 1 / 1000"
      using conv unfolding shift .
    moreover have "Suc k \<le> Suc m"
      using k by simp
    ultimately show ?thesis
      by blast
  qed
qed

lemma spec_rank_funpow:
  "spec_rank c d k = (spec_new_rank c d ^^ k) (\<lambda>p. 1 / real (length c))"
  by (induction k) simp_all

lemma spec_delta_linf:
  "spec_delta c d k = linf c (spec_rank c d k) (spec_rank c d (Suc k))"
  by (simp add: spec_delta_def linf_def)

lemma power_below:
  fixes d a :: real
  assumes "0 \<le> d" and "d < 1" and "0 \<le> a"
  shows "\<exists>m. d ^ m * a \<le> 1 / 1000"
proof (cases "a = 0")
  case True
  then show ?thesis by simp
next
  case False
  then have "0 < 1 / 1000 / a"
    using assms(3) by simp
  from real_arch_pow_inv [OF this assms(2)] obtain m where "d ^ m < 1 / 1000 / a"
    by blast
  then have "d ^ m * a < 1 / 1000"
    using False assms(3) by (simp add: pos_less_divide_eq)
  then show ?thesis
    by (intro exI [of _ m]) simp
qed

lemma iterate_pagerank_result:
  assumes "is_dict c" and "c \<noteq> []" and "0 \<le> d" and "d < 1"
  shows "\<exists>k. iterate_pagerank c d = Some (Inr (as_dict (keys c) (spec_rank c d (Suc k))))
             \<and> spec_delta c d k \<le> 1 / 1000
             \<and> (\<forall>j<k. 1 / 1000 < spec_delta c d j)"
proof -
  let ?R = "\<lambda>p::page. 1 / real (length c)"
  have "0 \<le> l1 c ?R (spec_new_rank c d ?R)"
    by (simp add: l1_def sum_nonneg)
  from power_below [OF assms(3,4) this] obtain m
    where "d ^ m * l1 c ?R (spec_new_rank c d ?R) \<le> 1 / 1000"
    by blast
  from pr_while_converges [OF assms(1-3) this] obtain k
    where "pr_while (normalized_corpus c) d (length c) (as_dict (keys c) ?R)
                   = Some (Inr (as_dict (keys c) ((spec_new_rank c d ^^ Suc k) ?R)))"
      and "linf c ((spec_new_rank c d ^^ k) ?R) ((spec_new_rank c d ^^ Suc k) ?R) \<le> 1 / 1000"
      and "\<forall>j<k. 1 / 1000 <
             linf c ((spec_new_rank c d ^^ j) ?R) ((spec_new_rank c d ^^ Suc j) ?R)"
    by blast
  then have "iterate_pagerank c d = Some (Inr (as_dict (keys c) (spec_rank c d (Suc k))))
             \<and> spec_delta c d k \<le> 1 / 1000
             \<and> (\<forall>j<k. 1 / 1000 < spec_delta c d j)"
    unfolding spec_delta_linf spec_rank_funpow
    by (simp add: iterate_pagerank_def Let_def as_dict_def)
  then show ?thesis ..
qed

lemma rounds_spec:
  assumes "is_dict c" and "c \<noteq> []"
  shows "rounds (normalized_corpus c) d (length c) (as_dict (keys c) R) k
           = Inr (as_dict (keys c) ((spec_new_rank c d ^^ k) R))"
proof (induction k arbitrary: R)
  case 0
  show ?case by simp
next
  case (Suc k)
  show ?case
    by (simp add: round_loop_new_rank [OF assms] Suc funpow_swap1)
qed

lemma rank_held_spec:
  assumes "is_dict c" and "c \<noteq> []"
  shows "rank_held c d k = Inr (as_dict (keys c) (spec_rank c d k))"
  using rounds_spec [OF assms, of d "\<lambda>p. 1 / real (length c)" k]
  by (simp add: rank_held_def Let_def spec_rank_funpow as_dict_def)

lemma round_delta_spec:
  assumes "is_dict c" and "c \<noteq> []"
  shows "round_delta c d k = Inr (spec_delta c d k)"
  by (simp add: round_delta_def rank_held_spec [OF assms] max_delta_as_dict [OF assms(2)]
      spec_delta_linf del: spec_rank.simps)

lemma round_delta_sum_spec:
  assumes "is_dict c" and "c \<noteq> []"
  shows "round_delta_sum c d k = Inr (l1 c (spec_rank c d k) (spec_rank c d (Suc k)))"
proof -
  have "distinct (keys c)"
    using assms(1) by (simp add: is_dict_def keys_def)
  then show ?thesis
    by (simp add: round_delta_sum_def rank_held_spec [OF assms] deltas_as_dict l1_def
        sum_list_distinct_conv_sum_set del: spec_rank.simps)
qed

subsection \<open>Bounds and sums of the iterates\<close>

lemma spec_rank_lower:
  assumes "0 \<le> d" and "d \<le> 1"
  shows "0 \<le> spec_rank c d k p \<and> (1 - d) / real (length c) \<le> spec_rank c d (Suc k) p"
proof (induction k arbitrary: p)
  case 0
  have "\<forall>q \<in> set (keys c). 0 \<le> spec_rank c d 0 q"
    by simp
  from spec_new_rank_lower [OF assms(1) this] show ?case
    by simp
next
  case (Suc k)
  have low: "0 \<le> (1 - d) / real (length c)"
    using assms(2) by simp
  have nonneg: "\<forall>q \<in> set (keys c). 0 \<le> spec_rank c d (Suc k) q"
    using Suc low by (auto intro: order_trans)
  have "(1 - d) / real (length c) \<le> spec_new_rank c d (spec_rank c d (Suc k)) p"
    using assms(1) nonneg by (rule spec_new_rank_lower)
  moreover have "0 \<le> spec_rank c d (Suc k) p"
    using Suc [of p] low by (auto intro: order_trans)
  ultimately show ?case
    by simp
qed

lemma spec_outlinks_closed:
  assumes "is_dict c" and "graph_invariant c" and "q \<in> set (keys c)"
  shows "fset (spec_outlinks c q) \<subseteq> set (keys c) \<and> spec_outlinks c q \<noteq> {||}"
proof -
  obtain v where v: "lookup c q = Inr v" and mem: "(q, v) \<in> set c"
    using lookup_key [OF assms(3)] by blast
  have sub: "fset v \<subseteq> set (keys c)"
    using assms(2) mem by (auto simp: graph_invariant_def)
  have m: "map_of c q = Some v"
    using v by (simp add: lookup_def split: option.splits)
  show ?thesis
  proof (cases "v = {||}")
    case True
    then have "spec_outlinks c q = fset_of_list (keys c)"
      using m by (simp add: spec_outlinks_def)
    then show ?thesis
      using assms(3) by (auto simp: fset_of_list.rep_eq)
  next
    case False
    then have "spec_outlinks c q = v"
      using m by (simp add: spec_outlinks_def)
    then show ?thesis
      using False sub by simp
  qed
qed

lemma spec_rank_sum:
  assumes "is_dict c" and "c \<noteq> []" and "graph_invariant c"
  shows "(\<Sum>p \<in> set (keys c). spec_rank c d k p) = 1"
proof (induction k)
  case 0
  have "card (set (keys c)) = length c"
    using assms(1) distinct_card [of "map fst c"] by (simp add: is_dict_def keys_def)
  then show ?case
    using assms(2) by simp
next
  case (Suc k)
  have closed: "\<forall>q \<in> set (keys c). fset (spec_outlinks c q) \<subseteq> set (keys c)
                               \<and> spec_outlinks c q \<noteq> {||}"
    using spec_outlinks_closed [OF assms(1,3)] by blast
  show ?case
    using spec_new_rank_sum [OF assms(1,2) closed, of d "spec_rank c d k"] Suc
    by simp
qed

lemma sum_list_as_dict:
  "distinct ks \<Longrightarrow> sum_list (map snd (as_dict ks R)) = (\<Sum>p \<in> set ks. R p)"
  by (simp add: as_dict_def comp_def sum_list_distinct_conv_sum_set)

lemma as_dict_sums_to_one:
  assumes "is_dict c" and "c \<noteq> []" and "graph_invariant c"
  shows "sum_list (map snd (as_dict (keys c) (spec_rank c d k))) = 1"
proof -
  have "distinct (keys c)"
    using assms(1) by (simp add: is_dict_def keys_def)
  then show ?thesis
    by (simp only: sum_list_as_dict spec_rank_sum [OF assms])
qed

subsection \<open>Evaluation\<close>

lemmas eval_simps =
  iterate_pagerank_def rank_held_def round_delta_def round_delta_sum_def
  sample_pagerank_def visit_counts_def sample_step_def fill_cache_def
  transition_model_def transform_model_def
  normalized_corpus_def keys_def lookup_def max_delta_def is_dict_def
  graph_invariant_def spec_outlinks_def as_dict_def fcard_finsert_if fcard_fempty

subsection \<open>Rounding to the nearest double\<close>

text \<open>Evaluation of \<open>fl\<close> on a numeral, and some doubles: \<open>0.1\<close>, \<open>- 1/3\<close>, two ties
  above \<open>2 ^ 53\<close> and the two ties that the damping factor \<open>1 - 2 ^ - 53\<close> produces.\<close>

lemma bitlen_pos: "0 < x \<Longrightarrow> bitlen x = bitlen (x div 2) + 1"
  by (subst compute_bitlen) simp

lemmas fl_eval = fl_def ilog2_def round_even_def pow2_def Let_def bitlen_pos

lemma fl_examples:
  "fl (1 / 10) = 3602879701896397 / 36028797018963968"
  "fl (- 1 / 3) = - 6004799503160661 / 18014398509481984"
  "fl (2 ^ 53 + 1) = 2 ^ 53"
  "fl (2 ^ 53 + 3) = 2 ^ 53 + 4"
  "fl (1 / 8 + 1 / 2 ^ 56) = 1 / 8"
  "fl (1 / 2 - 1 / 2 ^ 55) = 1 / 2"
  by (simp_all add: fl_eval)

lemma fl_threshold: "fl (1 / 1000) = 1152921504606847 / 1152921504606846976"
  by (simp add: fl_eval)

text \<open>One rounding changes a value by at most the relative error \<open>2 ^ - 53\<close>, or by
  \<open>2 ^ - 1075\<close> below the normal range.\<close>

lemma pow2_powi: "pow2 e = 2 powi e"
  by (simp add: pow2_def power_int_def field_simps)

lemma pow2_pos: "0 < pow2 e"
  by (simp add: pow2_powi)

lemma ilog2_bounds:
  assumes "0 < x"
  shows "pow2 (ilog2 x) \<le> x \<and> x < pow2 (ilog2 x + 1)"
proof (cases "1 \<le> x")
  case True
  define n where "n = \<lfloor>x\<rfloor>"
  have n: "0 < n"
    using True by (simp add: n_def)
  define b where "b = bitlen n"
  have b: "1 \<le> b"
    using n by (simp add: b_def bitlen_alt_def)
  from bitlen_bounds [OF n] have lo: "2 ^ nat (b - 1) \<le> n" and hi: "n < 2 ^ nat b"
    by (simp_all add: b_def)
  have "real_of_int (2 ^ nat (b - 1)) \<le> real_of_int n"
    using lo by (simp only: of_int_le_iff)
  also have "\<dots> \<le> x"
    by (simp add: n_def)
  finally have 1: "2 ^ nat (b - 1) \<le> x"
    by simp
  have "n + 1 \<le> 2 ^ nat b"
    using hi by simp
  then have "real_of_int (n + 1) \<le> real_of_int (2 ^ nat b)"
    by (simp only: of_int_le_iff)
  moreover have "x < real_of_int (n + 1)"
    by (simp add: n_def)
  ultimately have 2: "x < 2 ^ nat b"
    by simp
  have "ilog2 x = b - 1"
    using True by (simp add: ilog2_def b_def n_def)
  then show ?thesis
    using 1 2 b by (simp add: pow2_def)
next
  case False
  define y where "y = 1 / x"
  have y: "1 < y"
    using False assms by (simp add: y_def)
  define n where "n = \<lceil>y\<rceil> - 1"
  have n: "0 < n"
    using y unfolding n_def by linarith
  have ny: "real_of_int n < y" "y \<le> real_of_int (n + 1)"
    unfolding n_def by linarith+
  define b where "b = bitlen n"
  have b: "1 \<le> b"
    using n by (simp add: b_def bitlen_alt_def)
  from bitlen_bounds [OF n] have lo: "2 ^ nat (b - 1) \<le> n" and hi: "n < 2 ^ nat b"
    by (simp_all add: b_def)
  have "(2::real) ^ nat (b - 1) = real_of_int (2 ^ nat (b - 1))"
    by simp
  also have "\<dots> \<le> real_of_int n"
    using lo by (simp only: of_int_le_iff)
  also have "\<dots> < y"
    by (rule ny(1))
  finally have 1: "2 ^ nat (b - 1) < y" .
  have "n + 1 \<le> 2 ^ nat b"
    using hi by simp
  then have "real_of_int (n + 1) \<le> real_of_int (2 ^ nat b)"
    by (simp only: of_int_le_iff)
  also have "\<dots> = 2 ^ nat b"
    by simp
  finally have 2: "y \<le> 2 ^ nat b"
    using ny(2) by linarith
  have e: "ilog2 x = - b"
    using False by (simp add: ilog2_def b_def n_def y_def)
  have x: "x = 1 / y"
    using assms by (simp add: y_def)
  have "1 / 2 ^ nat b \<le> x"
    unfolding x using 2 y by (simp add: field_simps)
  moreover have "x < 1 / 2 ^ nat (b - 1)"
    unfolding x using 1 y by (simp add: field_simps)
  moreover have "pow2 (- b) = 1 / 2 ^ nat b"
    using b by (simp add: pow2_def)
  moreover have "pow2 (- b + 1) = 1 / 2 ^ nat (b - 1)"
  proof (cases "b = 1")
    case True
    then show ?thesis by (simp add: pow2_def)
  next
    case False
    then have "- b + 1 < 0" using b by simp
    moreover have "nat (- (- b + 1)) = nat (b - 1)" by simp
    ultimately show ?thesis by (simp add: pow2_def)
  qed
  ultimately show ?thesis
    by (simp add: e)
qed

lemma round_even_error: "\<bar>real_of_int (round_even q) - q\<bar> \<le> 1 / 2"
proof -
  have "real_of_int \<lfloor>q\<rfloor> \<le> q" "q < real_of_int \<lfloor>q\<rfloor> + 1"
    by linarith+
  then show ?thesis
    by (auto simp: round_even_def Let_def)
qed

lemma unit_roundoff_pos: "0 < unit_roundoff"
  by (simp add: unit_roundoff_def)

lemma tiny_pos: "0 < tiny"
  by (simp add: tiny_def)

lemma fl_error: "\<bar>fl x - x\<bar> \<le> unit_roundoff * \<bar>x\<bar> + tiny"
proof (cases "x = 0")
  case True
  then show ?thesis using tiny_pos by (simp add: fl_def)
next
  case False
  define e0 where "e0 = ilog2 \<bar>x\<bar>"
  define e where "e = max e0 (- 1022) - 52"
  define q where "q = x / pow2 e"
  have flx: "fl x = real_of_int (round_even q) * pow2 e"
    using False by (simp add: fl_def Let_def e_def e0_def q_def)
  have pos: "0 < pow2 e"
    by (rule pow2_pos)
  have x: "x = q * pow2 e"
    using pos by (simp add: q_def)
  have "(real_of_int (round_even q) - q) * pow2 e
      = real_of_int (round_even q) * pow2 e - q * pow2 e"
    by (simp add: algebra_simps)
  with flx x have "fl x - x = (real_of_int (round_even q) - q) * pow2 e"
    by simp
  then have "\<bar>fl x - x\<bar> = \<bar>real_of_int (round_even q) - q\<bar> * pow2 e"
    using pos by (simp add: abs_mult)
  also have "\<dots> \<le> 1 / 2 * pow2 e"
    using pos round_even_error by (intro mult_right_mono) simp_all
  finally have err: "\<bar>fl x - x\<bar> \<le> pow2 e / 2"
    by simp
  show ?thesis
  proof (cases "- 1022 \<le> e0")
    case True
    then have "e = e0 - 52"
      by (simp add: e_def)
    then have "pow2 e = pow2 e0 / 2 ^ 52"
      by (simp add: pow2_powi power_int_diff)
    moreover have "pow2 e0 \<le> \<bar>x\<bar>"
      using ilog2_bounds [of "\<bar>x\<bar>"] False by (simp add: e0_def)
    ultimately have "pow2 e / 2 \<le> unit_roundoff * \<bar>x\<bar>"
      by (simp add: unit_roundoff_def)
    with err tiny_pos show ?thesis
      by linarith
  next
    case False
    then have "e = - 1074"
      by (simp add: e_def)
    then have "pow2 e / 2 = tiny"
      by (simp add: pow2_def tiny_def)
    moreover have "0 \<le> unit_roundoff * \<bar>x\<bar>"
      using unit_roundoff_pos by simp
    ultimately show ?thesis
      using err by linarith
  qed
qed

subsection \<open>Propagation of rounding errors\<close>

lemma growth_ge_one: "1 \<le> (1 + unit_roundoff) ^ k"
  using unit_roundoff_pos by (intro one_le_power) simp

lemma growth_mono: "k \<le> k' \<Longrightarrow> (1 + unit_roundoff) ^ k \<le> (1 + unit_roundoff) ^ k'"
  using unit_roundoff_pos by (intro power_increasing) simp_all

lemma near_exact: "near 0 0 y y \<bar>y\<bar>"
  by (simp add: near_def)

lemma near_weaken:
  assumes "near k j x y a" and "k \<le> k'" and "j \<le> j'" and "a \<le> a'"
  shows "near k' j' x y a'"
proof -
  let ?g = "1 + unit_roundoff"
  have "\<bar>y\<bar> \<le> a"
    using assms(1) by (simp add: near_def)
  then have a: "0 \<le> a"
    by linarith
  have g: "?g ^ k \<le> ?g ^ k'"
    using assms(2) by (rule growth_mono)
  have "(?g ^ k - 1) * a \<le> (?g ^ k' - 1) * a"
    using g a by (intro mult_right_mono) simp_all
  also have "\<dots> \<le> (?g ^ k' - 1) * a'"
    using assms(4) growth_ge_one [of k'] by (intro mult_left_mono) simp_all
  finally have 1: "(?g ^ k - 1) * a \<le> (?g ^ k' - 1) * a'" .
  have "real j * ?g ^ k \<le> real j' * ?g ^ k'"
    using g assms(3) growth_ge_one [of k] by (intro mult_mono) simp_all
  then have 2: "real j * ?g ^ k * tiny \<le> real j' * ?g ^ k' * tiny"
    using tiny_pos by (intro mult_right_mono) simp_all
  from assms(1) have "\<bar>x - y\<bar> \<le> (?g ^ k - 1) * a + real j * ?g ^ k * tiny"
    by (simp add: near_def)
  with 1 2 have "\<bar>x - y\<bar> \<le> (?g ^ k' - 1) * a' + real j' * ?g ^ k' * tiny"
    by linarith
  moreover have "\<bar>y\<bar> \<le> a'"
    using assms(1,4) by (simp add: near_def)
  ultimately show ?thesis
    by (simp add: near_def)
qed

lemma near_fl:
  assumes "near k j x y a"
  shows "near (Suc k) (Suc j) (fl x) y a"
proof -
  let ?g = "1 + unit_roundoff" and ?u = unit_roundoff
  define G where "G = ?g ^ k"
  have G: "1 \<le> G"
    unfolding G_def by (rule growth_ge_one)
  from assms have ya: "\<bar>y\<bar> \<le> a" and xy: "\<bar>x - y\<bar> \<le> (G - 1) * a + real j * G * tiny"
    by (simp_all add: near_def G_def)
  have "\<bar>x\<bar> \<le> \<bar>y\<bar> + \<bar>x - y\<bar>"
    by simp
  with ya xy have x: "\<bar>x\<bar> \<le> G * a + real j * G * tiny"
    by (simp add: algebra_simps)
  have "?u * \<bar>x\<bar> \<le> ?u * (G * a + real j * G * tiny)"
    using x unit_roundoff_pos by (intro mult_left_mono) simp_all
  with fl_error [of x] have "\<bar>fl x - x\<bar> \<le> ?u * (G * a + real j * G * tiny) + tiny"
    by linarith
  moreover have "\<bar>fl x - y\<bar> \<le> \<bar>fl x - x\<bar> + \<bar>x - y\<bar>"
    by simp
  ultimately have "\<bar>fl x - y\<bar>
      \<le> ?u * (G * a + real j * G * tiny) + tiny + ((G - 1) * a + real j * G * tiny)"
    using xy by linarith
  also have "\<dots> = (?g * G - 1) * a + (real j * (?g * G) + 1) * tiny"
    by (simp add: algebra_simps)
  also have "\<dots> \<le> (?g * G - 1) * a + (real (Suc j) * (?g * G)) * tiny"
  proof -
    have "1 * 1 \<le> ?g * G"
      using G unit_roundoff_pos by (intro mult_mono) simp_all
    then have "1 \<le> ?g * G"
      by simp
    then have "real j * (?g * G) + 1 \<le> real (Suc j) * (?g * G)"
      by (simp add: algebra_simps)
    then show ?thesis
      using tiny_pos by (simp add: mult_right_mono)
  qed
  finally show ?thesis
    using ya by (simp add: near_def G_def)
qed

lemma near_add:
  assumes "near k j x y a" and "near k j' x' y' a'"
  shows "near k (j + j') (x + x') (y + y') (a + a')"
proof -
  let ?g = "1 + unit_roundoff"
  from assms have "\<bar>x - y\<bar> \<le> (?g ^ k - 1) * a + real j * ?g ^ k * tiny"
    and "\<bar>x' - y'\<bar> \<le> (?g ^ k - 1) * a' + real j' * ?g ^ k * tiny"
    and ya: "\<bar>y\<bar> \<le> a" "\<bar>y'\<bar> \<le> a'"
    by (simp_all add: near_def)
  moreover have "\<bar>(x + x') - (y + y')\<bar> \<le> \<bar>x - y\<bar> + \<bar>x' - y'\<bar>"
    by simp
  ultimately have "\<bar>(x + x') - (y + y')\<bar>
      \<le> (?g ^ k - 1) * a + real j * ?g ^ k * tiny
        + ((?g ^ k - 1) * a' + real j' * ?g ^ k * tiny)"
    by linarith
  also have "\<dots> = (?g ^ k - 1) * (a + a') + real (j + j') * ?g ^ k * tiny"
    by (simp add: algebra_simps)
  finally show ?thesis
    using ya by (simp add: near_def)
qed

lemma near_scale:
  assumes "near k j x y a" and "0 \<le> s" and "s \<le> 1"
  shows "near k j (s * x) (s * y) (s * a)"
proof -
  let ?g = "1 + unit_roundoff"
  from assms(1) have xy: "\<bar>x - y\<bar> \<le> (?g ^ k - 1) * a + real j * ?g ^ k * tiny"
    and ya: "\<bar>y\<bar> \<le> a"
    by (simp_all add: near_def)
  have t: "0 \<le> real j * ?g ^ k * tiny"
    using tiny_pos unit_roundoff_pos by simp
  have "\<bar>s * x - s * y\<bar> = s * \<bar>x - y\<bar>"
    using assms(2) by (simp add: abs_mult flip: right_diff_distrib)
  also have "\<dots> \<le> s * ((?g ^ k - 1) * a + real j * ?g ^ k * tiny)"
    using xy assms(2) by (intro mult_left_mono) simp_all
  also have "\<dots> = (?g ^ k - 1) * (s * a) + s * (real j * ?g ^ k * tiny)"
    by (simp add: algebra_simps)
  also have "\<dots> \<le> (?g ^ k - 1) * (s * a) + 1 * (real j * ?g ^ k * tiny)"
    using assms(3) t by (intro add_left_mono mult_right_mono) simp_all
  finally have "\<bar>s * x - s * y\<bar> \<le> (?g ^ k - 1) * (s * a) + real j * ?g ^ k * tiny"
    by simp
  moreover have "\<bar>s * y\<bar> \<le> s * a"
    using ya assms(2) by (simp add: abs_mult mult_left_mono)
  ultimately show ?thesis
    by (simp add: near_def)
qed

lemma near_div:
  assumes "near k j x y a" and "1 \<le> L"
  shows "near k j (x / L) (y / L) (a / L)"
  using near_scale [OF assms(1), of "1 / L"] assms(2) by simp

subsection \<open>The loops in double precision\<close>

lemma lead_loop_f_eq:
  assumes "\<forall>q \<in> set ks. lookup nc q = Inr (L q) \<and> lookup pr q = Inr (R q)"
  shows "lead_loop_f nc pr page ks acc = Inr (lead_f L R page ks acc)"
  using assms
proof (induction ks arbitrary: acc)
  case Nil
  then show ?case by simp
next
  case (Cons q ks)
  have ne: "page |\<in>| L q \<Longrightarrow> fcard (L q) \<noteq> 0"
    by auto
  from Cons show ?case
    using ne by simp
qed

lemma round_loop_f_eq:
  assumes "N \<noteq> 0"
    and "\<forall>p \<in> set ps. lead_loop_f nc pr p (keys nc) 0 = Inr (lead p)"
    and "distinct ps" and "set ps \<inter> set (keys acc) = {}"
  shows "round_loop_f nc d N pr ps acc =
           Inr (acc @ as_dict ps (\<lambda>p. fl (fl (fl (1 - d) / real N) + fl (d * lead p))))"
  using assms(2-)
proof (induction ps arbitrary: acc)
  case Nil
  then show ?case by (simp add: as_dict_def)
next
  case (Cons p ps)
  have fresh: "p \<notin> set (keys acc)"
    using Cons.prems(3) by auto
  let ?acc = "acc @ [(p, fl (fl (fl (1 - d) / real N) + fl (d * lead p)))]"
  have "set ps \<inter> set (keys ?acc) = {}"
    using Cons.prems(2,3) by (auto simp: keys_def)
  with Cons have "round_loop_f nc d N pr ps ?acc =
      Inr (?acc @ as_dict ps (\<lambda>p. fl (fl (fl (1 - d) / real N) + fl (d * lead p))))"
    by simp
  then show ?case
    using Cons.prems(1) assms(1) fresh by (simp add: update_fresh as_dict_def)
qed

lemma round_loop_f_new_rank:
  assumes "is_dict c" and "c \<noteq> []"
  shows "round_loop_f (normalized_corpus c) d (length c) (as_dict (keys c) R) (keys c) []
           = Inr (as_dict (keys c) (float_new_rank c d R))"
proof -
  let ?nc = "normalized_corpus c" and ?ks = "keys c"
  have dist: "distinct ?ks"
    using assms(1) by (simp add: is_dict_def keys_def)
  have look: "\<forall>q \<in> set ?ks. lookup ?nc q = Inr (spec_outlinks c q)
                \<and> lookup (as_dict ?ks R) q = Inr (R q)"
    by (simp add: lookup_normalized lookup_as_dict)
  have lead: "lead_loop_f ?nc (as_dict ?ks R) p (keys ?nc) 0 =
      Inr (lead_f (spec_outlinks c) R p ?ks 0)" for p
    using lead_loop_f_eq [OF look, of p 0] by simp
  have "round_loop_f ?nc d (length c) (as_dict ?ks R) ?ks [] =
      Inr ([] @ as_dict ?ks (\<lambda>p. fl (fl (fl (1 - d) / real (length c))
             + fl (d * lead_f (spec_outlinks c) R p ?ks 0))))"
    using assms(2) dist lead by (intro round_loop_f_eq) (simp_all add: keys_def)
  then show ?thesis
    by (simp add: float_new_rank_def [abs_def])
qed

lemma deltas_f_eq:
  assumes "\<forall>p \<in> set ks. lookup pr p = Inr (R p) \<and> lookup pr' p = Inr (R' p)"
  shows "deltas_f pr pr' ks = Inr (map (\<lambda>p. \<bar>fl (R p - R' p)\<bar>) ks)"
  using assms by (induction ks) simp_all

lemma deltas_f_as_dict:
  "deltas_f (as_dict (keys c) R) (as_dict (keys c) R') (keys c)
     = Inr (map (\<lambda>p. \<bar>fl (R p - R' p)\<bar>) (keys c))"
  by (rule deltas_f_eq) (simp add: lookup_as_dict)

lemma max_delta_f_as_dict:
  assumes "c \<noteq> []"
  shows "max_delta_f (normalized_corpus c) (as_dict (keys c) R) (as_dict (keys c) R')
           = Inr (float_delta c R R')"
proof -
  have "map (\<lambda>p. \<bar>fl (R p - R' p)\<bar>) (keys c) \<noteq> []"
    using assms by (simp add: keys_def)
  then show ?thesis
    by (simp add: max_delta_f_def deltas_f_as_dict py_max_eq float_delta_def)
qed

lemma pr_while_f_step:
  assumes "is_dict c" and "c \<noteq> []"
  shows "pr_while_f (normalized_corpus c) d (length c) (as_dict (keys c) R) =
           (if float_delta c R (float_new_rank c d R) \<le> fl (1 / 1000)
            then Some (Inr (as_dict (keys c) (float_new_rank c d R)))
            else pr_while_f (normalized_corpus c) d (length c)
                   (as_dict (keys c) (float_new_rank c d R)))"
  by (subst pr_while_f.simps)
     (simp add: round_loop_f_new_rank [OF assms] max_delta_f_as_dict [OF assms(2)])

lemma float_rank_funpow:
  "float_rank c d k = (float_new_rank c d ^^ k) (\<lambda>p. fl (1 / real (length c)))"
  by (induction k) simp_all

lemma rounds_f_float:
  assumes "is_dict c" and "c \<noteq> []"
  shows "rounds_f (normalized_corpus c) d (length c) (as_dict (keys c) R) k
           = Inr (as_dict (keys c) ((float_new_rank c d ^^ k) R))"
proof (induction k arbitrary: R)
  case 0
  show ?case by simp
next
  case (Suc k)
  show ?case
    by (simp add: round_loop_f_new_rank [OF assms] Suc funpow_swap1)
qed

lemma rank_held_f_float:
  assumes "is_dict c" and "c \<noteq> []"
  shows "rank_held_f c d k = Inr (as_dict (keys c) (float_rank c d k))"
  using rounds_f_float [OF assms, of d "\<lambda>p. fl (1 / real (length c))" k]
  by (simp add: rank_held_f_def Let_def float_rank_funpow as_dict_def)

lemma round_delta_f_float:
  assumes "is_dict c" and "c \<noteq> []"
  shows "round_delta_f c d k
           = Inr (float_delta c (float_rank c d k) (float_rank c d (Suc k)))"
  by (simp add: round_delta_f_def rank_held_f_float [OF assms] max_delta_f_as_dict [OF assms(2)]
      del: float_rank.simps)

lemma round_delta_sum_f_float:
  assumes "is_dict c" and "c \<noteq> []"
  shows "round_delta_sum_f c d k
           = Inr (float_delta_sum c (float_rank c d k) (float_rank c d (Suc k)))"
proof -
  have "distinct (keys c)"
    using assms(1) by (simp add: is_dict_def keys_def)
  then show ?thesis
    by (simp add: round_delta_sum_f_def rank_held_f_float [OF assms] deltas_f_as_dict
        float_delta_sum_def sum_list_distinct_conv_sum_set del: float_rank.simps)
qed

lemmas float_simps =
  iterate_pagerank_f_def rank_held_f_def round_delta_f_def round_delta_sum_f_def
  max_delta_f_def

subsection \<open>The rounding error of one round\<close>

text \<open>A new rank in double precision differs from the value of the recurrence by a
  relative error of at most \<open>N + 3\<close> roundings.\<close>

lemma lead_f_near:
  assumes "near k j acc Y A" and "1 \<le> k"
  shows "near (k + length ks) (j + 2 * length ks) (lead_f L R page ks acc)
           (Y + (\<Sum>q\<leftarrow>ks. if page |\<in>| L q then R q / real (fcard (L q)) else 0))
           (A + (\<Sum>q\<leftarrow>ks. if page |\<in>| L q then \<bar>R q\<bar> / real (fcard (L q)) else 0))"
  using assms
proof (induction ks arbitrary: k j acc Y A)
  case Nil
  then show ?case by simp
next
  case (Cons q ks)
  show ?case
  proof (cases "page |\<in>| L q")
    case False
    from Cons.IH [OF Cons.prems]
    have "near (k + length ks) (j + 2 * length ks) (lead_f L R page ks acc)
           (Y + (\<Sum>q\<leftarrow>ks. if page |\<in>| L q then R q / real (fcard (L q)) else 0))
           (A + (\<Sum>q\<leftarrow>ks. if page |\<in>| L q then \<bar>R q\<bar> / real (fcard (L q)) else 0))" .
    then have "near (k + length (q # ks)) (j + 2 * length (q # ks)) (lead_f L R page ks acc)
           (Y + (\<Sum>q\<leftarrow>ks. if page |\<in>| L q then R q / real (fcard (L q)) else 0))
           (A + (\<Sum>q\<leftarrow>ks. if page |\<in>| L q then \<bar>R q\<bar> / real (fcard (L q)) else 0))"
      by (rule near_weaken) simp_all
    with False show ?thesis
      by simp
  next
    case True
    let ?x = "R q / real (fcard (L q))"
    have "near 0 0 ?x ?x \<bar>?x\<bar>"
      by (rule near_exact)
    then have "near (Suc 0) (Suc 0) (fl ?x) ?x \<bar>?x\<bar>"
      by (rule near_fl)
    then have "near k (Suc 0) (fl ?x) ?x \<bar>?x\<bar>"
      by (rule near_weaken) (use Cons.prems(2) in simp_all)
    with Cons.prems(1) have "near k (j + Suc 0) (acc + fl ?x) (Y + ?x) (A + \<bar>?x\<bar>)"
      by (rule near_add)
    then have step: "near (Suc k) (Suc (j + Suc 0)) (fl (acc + fl ?x)) (Y + ?x) (A + \<bar>?x\<bar>)"
      by (rule near_fl)
    have "1 \<le> Suc k"
      by simp
    from Cons.IH [OF step this]
    have "near (Suc k + length ks) (Suc (j + Suc 0) + 2 * length ks)
           (lead_f L R page ks (fl (acc + fl ?x)))
           (Y + ?x + (\<Sum>q\<leftarrow>ks. if page |\<in>| L q then R q / real (fcard (L q)) else 0))
           (A + \<bar>?x\<bar> + (\<Sum>q\<leftarrow>ks. if page |\<in>| L q then \<bar>R q\<bar> / real (fcard (L q)) else 0))" .
    with True show ?thesis
      by (simp add: add.assoc)
  qed
qed

lemma float_new_rank_near:
  assumes "is_dict c" and "c \<noteq> []" and "0 \<le> d" and "d \<le> 1"
  shows "near (length c + 3) (2 * length c + 4) (float_new_rank c d R p)
           (spec_new_rank c d R p) (spec_new_rank c d (\<lambda>q. \<bar>R q\<bar>) p)"
proof -
  let ?N = "length c" and ?ks = "keys c" and ?L = "spec_outlinks c"
  let ?lead = "\<Sum>q \<in> {q \<in> set ?ks. p |\<in>| ?L q}. R q / real (fcard (?L q))"
  let ?labs = "\<Sum>q \<in> {q \<in> set ?ks. p |\<in>| ?L q}. \<bar>R q\<bar> / real (fcard (?L q))"
  let ?t = "(1 - d) / real ?N"
  have dist: "distinct ?ks"
    using assms(1) by (simp add: is_dict_def keys_def)
  have N: "1 \<le> real ?N"
    using assms(2) by (cases c) simp_all
  have "near 0 0 0 0 0"
    using near_exact [of 0] by simp
  then have "near 1 0 0 0 0"
    by (rule near_weaken) simp_all
  from lead_f_near [OF this, of ?ks ?L R p]
  have "near (1 + ?N) (2 * ?N) (lead_f ?L R p ?ks 0) ?lead ?labs"
    using dist by (simp add: sum_list_filtered)
  then have "near (1 + ?N) (2 * ?N) (d * lead_f ?L R p ?ks 0) (d * ?lead) (d * ?labs)"
    using assms(3,4) by (rule near_scale)
  then have "near (Suc (1 + ?N)) (Suc (2 * ?N)) (fl (d * lead_f ?L R p ?ks 0))
               (d * ?lead) (d * ?labs)"
    by (rule near_fl)
  then have w: "near (?N + 2) (2 * ?N + 1) (fl (d * lead_f ?L R p ?ks 0))
               (d * ?lead) (d * ?labs)"
    by simp
  have "near 0 0 (1 - d) (1 - d) \<bar>1 - d\<bar>"
    by (rule near_exact)
  then have "near (Suc 0) (Suc 0) (fl (1 - d)) (1 - d) (1 - d)"
    using assms(4) near_fl [of 0 0 "1 - d" "1 - d" "1 - d"] by simp
  then have "near (Suc 0) (Suc 0) (fl (1 - d) / real ?N) ?t ?t"
    using N by (rule near_div)
  then have "near (Suc (Suc 0)) (Suc (Suc 0)) (fl (fl (1 - d) / real ?N)) ?t ?t"
    by (rule near_fl)
  then have "near (?N + 2) 2 (fl (fl (1 - d) / real ?N)) ?t ?t"
    by (rule near_weaken) simp_all
  from near_add [OF this w]
  have "near (?N + 2) (2 + (2 * ?N + 1))
          (fl (fl (1 - d) / real ?N) + fl (d * lead_f ?L R p ?ks 0))
          (?t + d * ?lead) (?t + d * ?labs)" .
  then have "near (Suc (?N + 2)) (Suc (2 + (2 * ?N + 1)))
          (fl (fl (fl (1 - d) / real ?N) + fl (d * lead_f ?L R p ?ks 0)))
          (?t + d * ?lead) (?t + d * ?labs)"
    by (rule near_fl)
  then show ?thesis
    by (simp add: float_new_rank_def spec_new_rank_def eval_nat_numeral)
qed

lemma card_keys:
  "is_dict c \<Longrightarrow> card (set (keys c)) = length c"
  using distinct_card [of "map fst c"] by (simp add: is_dict_def keys_def)

lemma growth_ge: "1 \<le> growth c"
  unfolding growth_def by (rule growth_ge_one)

lemma page_err_nonneg: "0 \<le> page_err c"
  using growth_ge [of c] tiny_pos by (simp add: page_err_def)

lemma float_new_rank_error:
  assumes "is_dict c" and "c \<noteq> []" and "0 \<le> d" and "d \<le> 1"
  shows "\<bar>float_new_rank c d R p - spec_new_rank c d R p\<bar>
           \<le> (growth c - 1) * spec_new_rank c d (\<lambda>q. \<bar>R q\<bar>) p + page_err c"
    and "\<bar>spec_new_rank c d R p\<bar> \<le> spec_new_rank c d (\<lambda>q. \<bar>R q\<bar>) p"
  using float_new_rank_near [OF assms, of R p]
  by (simp_all add: near_def growth_def page_err_def)

lemma spec_new_rank_abs_sum:
  assumes "is_dict c" and "c \<noteq> []" and "0 \<le> d"
  shows "(\<Sum>p \<in> set (keys c). spec_new_rank c d (\<lambda>q. \<bar>R q\<bar>) p) \<le> (1 - d) + d * mass c R"
proof -
  let ?P = "set (keys c)" and ?A = "\<lambda>q. \<bar>R q\<bar>" and ?Z = "\<lambda>q::page. 0::real"
  have N: "real (length c) \<noteq> 0"
    using assms(2) by simp
  have zero: "spec_new_rank c d ?Z p = (1 - d) / real (length c)" for p
    by (simp add: spec_new_rank_def)
  have "(\<Sum>p \<in> ?P. spec_new_rank c d ?A p)
      = (\<Sum>p \<in> ?P. spec_new_rank c d ?Z p + (spec_new_rank c d ?A p - spec_new_rank c d ?Z p))"
    by simp
  also have "\<dots> \<le> (\<Sum>p \<in> ?P. spec_new_rank c d ?Z p
                              + \<bar>spec_new_rank c d ?A p - spec_new_rank c d ?Z p\<bar>)"
    by (intro sum_mono) simp
  also have "\<dots> = (\<Sum>p \<in> ?P. spec_new_rank c d ?Z p)
                   + l1 c (spec_new_rank c d ?A) (spec_new_rank c d ?Z)"
    by (simp add: sum.distrib l1_def)
  also have "(\<Sum>p \<in> ?P. spec_new_rank c d ?Z p) = 1 - d"
    using N by (simp add: zero card_keys [OF assms(1)])
  also have "l1 c (spec_new_rank c d ?A) (spec_new_rank c d ?Z) \<le> d * l1 c ?A ?Z"
    using assms(3) by (rule l1_contraction)
  also have "l1 c ?A ?Z = mass c R"
    by (simp add: l1_def mass_def)
  finally show ?thesis
    by simp
qed

lemma round_error_sum:
  assumes "is_dict c" and "c \<noteq> []" and "0 \<le> d" and "d \<le> 1" and "mass c R \<le> 2"
  shows "(\<Sum>p \<in> set (keys c). \<bar>float_new_rank c d R p - spec_new_rank c d R p\<bar>)
           \<le> round_err c"
proof -
  let ?P = "set (keys c)" and ?A = "\<lambda>q. \<bar>R q\<bar>"
  have "(\<Sum>p \<in> ?P. \<bar>float_new_rank c d R p - spec_new_rank c d R p\<bar>)
      \<le> (\<Sum>p \<in> ?P. (growth c - 1) * spec_new_rank c d ?A p + page_err c)"
    by (intro sum_mono float_new_rank_error(1) assms(1-4))
  also have "\<dots> = (growth c - 1) * (\<Sum>p \<in> ?P. spec_new_rank c d ?A p)
                   + real (length c) * page_err c"
    by (simp add: sum.distrib sum_distrib_left card_keys [OF assms(1)])
  also have "\<dots> \<le> (growth c - 1) * 2 + real (length c) * page_err c"
  proof -
    have "d * mass c R \<le> d * 2"
      using assms(3,5) by (intro mult_left_mono)
    with spec_new_rank_abs_sum [OF assms(1-3), of R]
    have "(\<Sum>p \<in> ?P. spec_new_rank c d ?A p) \<le> 2"
      using assms(4) by linarith
    then have "(growth c - 1) * (\<Sum>p \<in> ?P. spec_new_rank c d ?A p) \<le> (growth c - 1) * 2"
      using growth_ge [of c] by (intro mult_left_mono) simp_all
    then show ?thesis
      by simp
  qed
  finally show ?thesis
    by (simp add: round_err_def)
qed

lemma mass_step:
  assumes "is_dict c" and "c \<noteq> []" and "0 \<le> d" and "d \<le> 1"
  shows "mass c (float_new_rank c d R)
           \<le> growth c * ((1 - d) + d * mass c R) + real (length c) * page_err c"
proof -
  let ?P = "set (keys c)" and ?A = "\<lambda>q. \<bar>R q\<bar>"
  have "\<bar>float_new_rank c d R p\<bar> \<le> growth c * spec_new_rank c d ?A p + page_err c" for p
  proof -
    have "\<bar>float_new_rank c d R p\<bar>
        \<le> \<bar>spec_new_rank c d R p\<bar> + \<bar>float_new_rank c d R p - spec_new_rank c d R p\<bar>"
      by simp
    with float_new_rank_error [OF assms, of R p]
    have "\<bar>float_new_rank c d R p\<bar>
        \<le> spec_new_rank c d ?A p + ((growth c - 1) * spec_new_rank c d ?A p + page_err c)"
      by linarith
    then show ?thesis
      by (simp add: algebra_simps)
  qed
  then have "mass c (float_new_rank c d R)
      \<le> (\<Sum>p \<in> ?P. growth c * spec_new_rank c d ?A p + page_err c)"
    unfolding mass_def by (intro sum_mono)
  also have "\<dots> = growth c * (\<Sum>p \<in> ?P. spec_new_rank c d ?A p)
                   + real (length c) * page_err c"
    by (simp add: sum.distrib sum_distrib_left card_keys [OF assms(1)])
  also have "\<dots> \<le> growth c * ((1 - d) + d * mass c R) + real (length c) * page_err c"
    using spec_new_rank_abs_sum [OF assms(1-3), of R] growth_ge [of c]
    by (intro add_right_mono mult_left_mono) simp_all
  finally show ?thesis .
qed

lemma delta_step:
  assumes "is_dict c" and "c \<noteq> []" and "0 \<le> d" and "d \<le> 1"
    and "mass c R \<le> 2" and "mass c (float_new_rank c d R) \<le> 2"
  shows "l1 c (float_new_rank c d R) (float_new_rank c d (float_new_rank c d R))
           \<le> d * l1 c R (float_new_rank c d R) + 2 * round_err c"
proof -
  let ?P = "set (keys c)" and ?F = "float_new_rank c d" and ?T = "spec_new_rank c d"
  have "\<bar>?F R p - ?F (?F R) p\<bar>
      \<le> \<bar>?T R p - ?T (?F R) p\<bar> + \<bar>?F R p - ?T R p\<bar> + \<bar>?F (?F R) p - ?T (?F R) p\<bar>" for p
    by linarith
  then have "l1 c (?F R) (?F (?F R))
      \<le> (\<Sum>p \<in> ?P. \<bar>?T R p - ?T (?F R) p\<bar> + \<bar>?F R p - ?T R p\<bar>
                        + \<bar>?F (?F R) p - ?T (?F R) p\<bar>)"
    unfolding l1_def by (intro sum_mono)
  also have "\<dots> = l1 c (?T R) (?T (?F R)) + (\<Sum>p \<in> ?P. \<bar>?F R p - ?T R p\<bar>)
                   + (\<Sum>p \<in> ?P. \<bar>?F (?F R) p - ?T (?F R) p\<bar>)"
    by (simp add: sum.distrib l1_def)
  also have "\<dots> \<le> d * l1 c R (?F R) + round_err c + round_err c"
    using l1_contraction [OF assms(3), of c R "?F R"]
      round_error_sum [OF assms(1-5)] round_error_sum [OF assms(1-4,6)]
    by linarith
  finally show ?thesis
    by simp
qed

subsection \<open>The size of the rounding error\<close>

text \<open>For at most \<open>2 ^ 30\<close> pages the error of a round is below \<open>2 ^ - 19\<close>; with a damping
  factor of at most 0.99 the ranks keep a summed magnitude of at most 2.\<close>

lemma growth_bound:
  "2 * real n * unit_roundoff \<le> 1 \<Longrightarrow>
     (1 + unit_roundoff) ^ n \<le> 1 + 2 * real n * unit_roundoff"
proof (induction n)
  case 0
  show ?case by simp
next
  case (Suc n)
  let ?u = unit_roundoff
  have u: "0 < ?u"
    by (rule unit_roundoff_pos)
  have small: "2 * real n * ?u \<le> 1"
  proof -
    have "2 * real n * ?u \<le> 2 * real (Suc n) * ?u"
      using u by (intro mult_right_mono) simp_all
    with Suc.prems show ?thesis by linarith
  qed
  have "(1 + ?u) ^ Suc n = (1 + ?u) ^ n * (1 + ?u)"
    by simp
  also have "\<dots> \<le> (1 + 2 * real n * ?u) * (1 + ?u)"
    using Suc.IH [OF small] u by (intro mult_right_mono) simp_all
  also have "\<dots> = 1 + 2 * real n * ?u + ?u + (2 * real n * ?u) * ?u"
    by (simp add: algebra_simps)
  also have "\<dots> \<le> 1 + 2 * real n * ?u + ?u + 1 * ?u"
    using small u by (intro add_left_mono mult_right_mono) simp_all
  also have "\<dots> = 1 + 2 * real (Suc n) * ?u"
    by (simp add: algebra_simps)
  finally show ?case .
qed

lemma real_length_le:
  assumes "length c \<le> 2 ^ 30"
  shows "real (length c) \<le> 2 ^ 30"
proof -
  have "real (length c) \<le> real (2 ^ 30)"
    using assms by (rule of_nat_mono)
  also have "real (2 ^ 30) = 2 ^ 30"
    by (simp only: of_nat_power of_nat_numeral)
  finally show ?thesis .
qed

lemma growth_small:
  assumes "length c \<le> 2 ^ 30"
  shows "growth c \<le> 1 + 1 / 2 ^ 21"
proof -
  let ?n = "length c + 3"
  have "real ?n \<le> 2 ^ 30 + 3"
    using real_length_le [OF assms] by simp
  then have "2 * real ?n * unit_roundoff \<le> 2 * (2 ^ 30 + 3) * unit_roundoff"
    using unit_roundoff_pos by (intro mult_right_mono mult_left_mono) simp_all
  also have "\<dots> \<le> 1 / 2 ^ 21"
    by (simp add: unit_roundoff_def)
  finally have b: "2 * real ?n * unit_roundoff \<le> 1 / 2 ^ 21" .
  then have "2 * real ?n * unit_roundoff \<le> 1"
    by simp
  from growth_bound [OF this] b show ?thesis
    unfolding growth_def by linarith
qed

lemma tiny_small:
  assumes "length c \<le> 2 ^ 30"
  shows "real (length c) * tiny \<le> 1 / 2 ^ 21"
proof -
  have "real (length c) \<le> 2 ^ 30"
    using assms by (rule real_length_le)
  then have "real (length c) * tiny \<le> 2 ^ 30 * tiny"
    using tiny_pos by (intro mult_right_mono) simp_all
  also have "\<dots> \<le> 1 / 2 ^ 21"
    by (simp add: tiny_def)
  finally show ?thesis .
qed

lemma page_err_small:
  assumes "length c \<le> 2 ^ 30"
  shows "real (length c) * page_err c \<le> 1 / 2 ^ 21"
proof -
  have N: "real (length c) \<le> 2 ^ 30"
    using assms by (rule real_length_le)
  then have "real (2 * length c + 4) \<le> 2 ^ 32"
    by simp
  moreover have "growth c \<le> 2"
    using growth_small [OF assms] by simp
  ultimately have "real (2 * length c + 4) * growth c \<le> 2 ^ 32 * 2"
    using growth_ge [of c] by (intro mult_mono) simp_all
  then have "page_err c \<le> 2 ^ 32 * 2 * tiny"
    unfolding page_err_def using tiny_pos by (intro mult_right_mono) simp_all
  with N have "real (length c) * page_err c \<le> 2 ^ 30 * (2 ^ 32 * 2 * tiny)"
    using page_err_nonneg [of c] by (intro mult_mono) simp_all
  also have "\<dots> \<le> 1 / 2 ^ 21"
    by (simp add: tiny_def)
  finally show ?thesis .
qed

lemma round_err_small:
  assumes "length c \<le> 2 ^ 30"
  shows "round_err c \<le> 1 / 2 ^ 19"
  using growth_small [OF assms] page_err_small [OF assms]
  by (simp add: round_err_def)

lemma mass_bound:
  assumes "is_dict c" and "c \<noteq> []" and "0 \<le> d" and "d \<le> 99 / 100"
    and "length c \<le> 2 ^ 30" and "mass c R \<le> 2"
  shows "mass c (float_new_rank c d R) \<le> 2"
proof -
  have d1: "d \<le> 1"
    using assms(4) by simp
  have m0: "0 \<le> mass c R"
    by (simp add: mass_def sum_nonneg)
  have "d * mass c R \<le> d * 2"
    using assms(3,6) by (intro mult_left_mono)
  then have X: "(1 - d) + d * mass c R \<le> 199 / 100"
    using assms(4) by linarith
  have X0: "0 \<le> (1 - d) + d * mass c R"
    using assms(3) d1 m0 by simp
  have "growth c * ((1 - d) + d * mass c R) \<le> (1 + 1 / 2 ^ 21) * (199 / 100)"
    using growth_small [OF assms(5)] X X0 growth_ge [of c] by (intro mult_mono) simp_all
  with mass_step [OF assms(1-3) d1, of R] page_err_small [OF assms(5)]
  have "mass c (float_new_rank c d R) \<le> (1 + 1 / 2 ^ 21) * (199 / 100) + 1 / 2 ^ 21"
    by linarith
  also have "\<dots> \<le> 2"
    by simp
  finally show ?thesis .
qed

lemma mass_start:
  assumes "is_dict c" and "c \<noteq> []" and "length c \<le> 2 ^ 30"
  shows "mass c (\<lambda>p. fl (1 / real (length c))) \<le> 2"
proof -
  let ?N = "real (length c)" and ?u = unit_roundoff
  have N: "1 \<le> ?N"
    using assms(2) by (cases c) simp_all
  let ?x = "1 / ?N"
  have "\<bar>fl ?x\<bar> \<le> \<bar>?x\<bar> + \<bar>fl ?x - ?x\<bar>"
    by linarith
  with fl_error [of ?x] have "\<bar>fl ?x\<bar> \<le> ?x + (?u * ?x + tiny)"
    using N by simp
  then have "?N * \<bar>fl ?x\<bar> \<le> ?N * (?x + (?u * ?x + tiny))"
    using N by (intro mult_left_mono) simp_all
  also have "\<dots> = 1 + ?u + ?N * tiny"
    using assms(2) by (simp add: algebra_simps)
  also have "\<dots> \<le> 2"
    using tiny_small [OF assms(3)] by (simp add: unit_roundoff_def)
  finally show ?thesis
    by (simp add: mass_def card_keys [OF assms(1)])
qed

lemma mass_float_rank:
  assumes "is_dict c" and "c \<noteq> []" and "0 \<le> d" and "d \<le> 99 / 100"
    and "length c \<le> 2 ^ 30"
  shows "mass c (float_rank c d k) \<le> 2"
proof (induction k)
  case 0
  show ?case
    using mass_start [OF assms(1,2,5)] by simp
next
  case (Suc k)
  show ?case
    using mass_bound [OF assms Suc] by simp
qed

lemma float_delta_le:
  assumes "c \<noteq> []"
  shows "float_delta c R R' \<le> (1 + unit_roundoff) * l1 c R R' + tiny"
proof -
  let ?f = "\<lambda>p. \<bar>fl (R p - R' p)\<bar>"
  have ne: "?f ` set (keys c) \<noteq> {}"
    using assms by (simp add: keys_def)
  have "\<forall>x \<in> ?f ` set (keys c). x \<le> (1 + unit_roundoff) * l1 c R R' + tiny"
  proof
    fix x assume "x \<in> ?f ` set (keys c)"
    then obtain p where p: "p \<in> set (keys c)" and x: "x = ?f p"
      by auto
    let ?z = "R p - R' p"
    have "\<bar>?z\<bar> \<le> (\<Sum>p \<in> set (keys c). \<bar>R p - R' p\<bar>)"
      using p by (intro member_le_sum) simp_all
    then have z: "\<bar>?z\<bar> \<le> l1 c R R'"
      by (simp add: l1_def)
    have "\<bar>fl ?z\<bar> \<le> \<bar>?z\<bar> + \<bar>fl ?z - ?z\<bar>"
      by linarith
    with fl_error [of ?z] have "\<bar>fl ?z\<bar> \<le> (1 + unit_roundoff) * \<bar>?z\<bar> + tiny"
      by (simp add: algebra_simps)
    moreover have "(1 + unit_roundoff) * \<bar>?z\<bar> \<le> (1 + unit_roundoff) * l1 c R R'"
      using z unit_roundoff_pos by (intro mult_left_mono) simp_all
    ultimately show "x \<le> (1 + unit_roundoff) * l1 c R R' + tiny"
      unfolding x by linarith
  qed
  then show ?thesis
    unfolding float_delta_def using ne by simp
qed

lemma float_delta_below:
  assumes "c \<noteq> []" and "length c \<le> 2 ^ 30"
    and "l1 c R R' \<le> 200 * round_err c + 1 / 2000"
  shows "float_delta c R R' \<le> fl (1 / 1000)"
proof -
  let ?u = unit_roundoff
  have D: "l1 c R R' \<le> 200 / 2 ^ 19 + 1 / 2000"
    using assms(3) round_err_small [OF assms(2)] by linarith
  have "(1 + ?u) * l1 c R R' \<le> (1 + ?u) * (200 / 2 ^ 19 + 1 / 2000)"
    using D unit_roundoff_pos by (intro mult_left_mono) simp_all
  also have "\<dots> \<le> 9 / 10000"
    by (simp add: unit_roundoff_def)
  finally have "(1 + ?u) * l1 c R R' \<le> 9 / 10000" .
  moreover have "tiny \<le> 1 / 10000"
    by (simp add: tiny_def)
  ultimately have "float_delta c R R' \<le> 1 / 1000"
    using float_delta_le [OF assms(1), of R R'] by linarith
  also have "\<dots> \<le> fl (1 / 1000)"
    by (simp add: fl_threshold)
  finally show ?thesis .
qed

lemma float_delta_le_sum:
  assumes "c \<noteq> []"
  shows "float_delta c R R' \<le> float_delta_sum c R R'"
proof -
  let ?f = "\<lambda>p. \<bar>fl (R p - R' p)\<bar>"
  have ne: "?f ` set (keys c) \<noteq> {}"
    using assms by (simp add: keys_def)
  have "\<forall>x \<in> ?f ` set (keys c). x \<le> float_delta_sum c R R'"
  proof
    fix x assume "x \<in> ?f ` set (keys c)"
    then obtain p where p: "p \<in> set (keys c)" and x: "x = ?f p"
      by auto
    have "?f p \<le> (\<Sum>p \<in> set (keys c). ?f p)"
      using p by (intro member_le_sum) simp_all
    then show "x \<le> float_delta_sum c R R'"
      by (simp add: x float_delta_sum_def)
  qed
  then show ?thesis
    unfolding float_delta_def using ne by simp
qed

lemma float_delta_sum_bounds:
  assumes "is_dict c"
  shows "float_delta_sum c R R' \<le> (1 + unit_roundoff) * l1 c R R' + real (length c) * tiny"
    and "(1 - unit_roundoff) * l1 c R R' - real (length c) * tiny \<le> float_delta_sum c R R'"
proof -
  let ?P = "set (keys c)" and ?u = unit_roundoff
  have up: "\<bar>fl z\<bar> \<le> (1 + ?u) * \<bar>z\<bar> + tiny" and lo: "(1 - ?u) * \<bar>z\<bar> - tiny \<le> \<bar>fl z\<bar>" for z
  proof -
    have "\<bar>fl z\<bar> \<le> \<bar>z\<bar> + \<bar>fl z - z\<bar>" "\<bar>z\<bar> \<le> \<bar>fl z\<bar> + \<bar>fl z - z\<bar>"
      by linarith+
    with fl_error [of z]
    show "\<bar>fl z\<bar> \<le> (1 + ?u) * \<bar>z\<bar> + tiny" "(1 - ?u) * \<bar>z\<bar> - tiny \<le> \<bar>fl z\<bar>"
      by (simp_all add: algebra_simps)
  qed
  have "float_delta_sum c R R' \<le> (\<Sum>p \<in> ?P. (1 + ?u) * \<bar>R p - R' p\<bar> + tiny)"
    unfolding float_delta_sum_def by (intro sum_mono up)
  also have "\<dots> = (1 + ?u) * l1 c R R' + real (length c) * tiny"
    by (simp add: sum.distrib sum_distrib_left l1_def card_keys [OF assms])
  finally show "float_delta_sum c R R' \<le> (1 + ?u) * l1 c R R' + real (length c) * tiny" .
  have "(\<Sum>p \<in> ?P. (1 - ?u) * \<bar>R p - R' p\<bar> - tiny) \<le> float_delta_sum c R R'"
    unfolding float_delta_sum_def by (intro sum_mono lo)
  also have "(\<Sum>p \<in> ?P. (1 - ?u) * \<bar>R p - R' p\<bar> - tiny)
      = (1 - ?u) * l1 c R R' - real (length c) * tiny"
    by (simp add: sum_subtractf sum_distrib_left l1_def card_keys [OF assms])
  finally show "(1 - ?u) * l1 c R R' - real (length c) * tiny \<le> float_delta_sum c R R'" .
qed

lemma float_delta_sum_shrinks:
  assumes "is_dict c" and "c \<noteq> []" and "0 \<le> d" and "d \<le> 99 / 100"
    and "length c \<le> 2 ^ 30" and "mass c R \<le> 2"
    and "1 / 1000 < float_delta_sum c R (float_new_rank c d R)"
  shows "float_delta_sum c (float_new_rank c d R) (float_new_rank c d (float_new_rank c d R))
           \<le> float_delta_sum c R (float_new_rank c d R)"
proof -
  let ?F = "float_new_rank c d" and ?u = unit_roundoff
  let ?D = "l1 c R (?F R)" and ?D' = "l1 c (?F R) (?F (?F R))"
  let ?a = "float_delta_sum c R (?F R)" and ?b = "float_delta_sum c (?F R) (?F (?F R))"
  let ?n = "real (length c) * tiny"
  have d1: "d \<le> 1"
    using assms(4) by simp
  have u: "?u = 1 / 2 ^ 53"
    by (rule unit_roundoff_def)
  have D0: "0 \<le> ?D"
    by (simp add: l1_def sum_nonneg)
  have n: "?n \<le> 1 / 2 ^ 21"
    using assms(5) by (rule tiny_small)
  have E: "round_err c \<le> 1 / 2 ^ 19"
    using assms(5) by (rule round_err_small)
  have mass': "mass c (?F R) \<le> 2"
    using assms(1-6) by (rule mass_bound)
  have step: "?D' \<le> d * ?D + 2 * round_err c"
    using assms(1-3) d1 assms(6) mass' by (rule delta_step)
  have "d * ?D \<le> 99 / 100 * ?D"
    using assms(4) D0 by (intro mult_right_mono)
  with step E have D': "?D' \<le> 99 / 100 * ?D + 2 / 2 ^ 19"
    by linarith
  have D'0: "0 \<le> ?D'"
    by (simp add: l1_def sum_nonneg)
  have g: "1 + ?u \<le> 1001 / 1000" and h: "9999 / 10000 \<le> 1 - ?u"
    by (simp_all add: unit_roundoff_def)
  have "?a \<le> (1 + ?u) * ?D + ?n"
    using float_delta_sum_bounds(1) [OF assms(1), of R "?F R"] .
  moreover have "(1 + ?u) * ?D \<le> 1001 / 1000 * ?D"
    using g D0 by (intro mult_right_mono)
  ultimately have a_up: "?a \<le> 1001 / 1000 * ?D + ?n"
    by linarith
  have "(1 - ?u) * ?D - ?n \<le> ?a"
    using float_delta_sum_bounds(2) [OF assms(1), of R "?F R"] .
  moreover have "9999 / 10000 * ?D \<le> (1 - ?u) * ?D"
    using h D0 by (intro mult_right_mono)
  ultimately have a_lo: "9999 / 10000 * ?D - ?n \<le> ?a"
    by linarith
  have "?b \<le> (1 + ?u) * ?D' + ?n"
    using float_delta_sum_bounds(1) [OF assms(1), of "?F R" "?F (?F R)"] .
  moreover have "(1 + ?u) * ?D' \<le> 1001 / 1000 * ?D'"
    using g D'0 by (intro mult_right_mono)
  ultimately have b_up: "?b \<le> 1001 / 1000 * ?D' + ?n"
    by linarith
  have n': "?n \<le> 1 / 2097152"
    using n by simp
  have D'': "?D' \<le> 99 / 100 * ?D + 1 / 262144"
    using D' by simp
  from assms(7) a_up a_lo b_up n' D'' show ?thesis
    by linarith
qed

subsection \<open>The double-precision loop leaves when the damping factor is at most 0.99\<close>

text \<open>The summed difference of two successive rank functions shrinks by the factor \<open>d\<close>
  up to twice the rounding error of a round; what it cannot get below, \<open>200\<close> times that
  error, is far below the threshold.\<close>

lemma pr_while_f_converges:
  assumes "is_dict c" and "c \<noteq> []" and "0 \<le> d" and "d \<le> 99 / 100"
    and "length c \<le> 2 ^ 30" and "mass c R \<le> 2"
    and "d ^ m * (l1 c R (float_new_rank c d R) - 200 * round_err c) \<le> 1 / 2000"
  shows "\<exists>k\<le>m. pr_while_f (normalized_corpus c) d (length c) (as_dict (keys c) R)
                   = Some (Inr (as_dict (keys c) ((float_new_rank c d ^^ Suc k) R)))"
  using assms(6,7)
proof (induction m arbitrary: R)
  case 0
  let ?F = "float_new_rank c d"
  from 0 have "l1 c R (?F R) \<le> 200 * round_err c + 1 / 2000"
    by simp
  from float_delta_below [OF assms(2,5) this]
  have "pr_while_f (normalized_corpus c) d (length c) (as_dict (keys c) R)
      = Some (Inr (as_dict (keys c) (?F R)))"
    by (simp add: pr_while_f_step [OF assms(1,2)])
  then show ?case
    by simp
next
  case (Suc m)
  let ?F = "float_new_rank c d"
  have d1: "d \<le> 1"
    using assms(4) by simp
  show ?case
  proof (cases "float_delta c R (?F R) \<le> fl (1 / 1000)")
    case True
    then have "pr_while_f (normalized_corpus c) d (length c) (as_dict (keys c) R)
        = Some (Inr (as_dict (keys c) ((?F ^^ Suc 0) R)))"
      by (simp add: pr_while_f_step [OF assms(1,2)])
    then show ?thesis
      by blast
  next
    case False
    then have unfold: "pr_while_f (normalized_corpus c) d (length c) (as_dict (keys c) R)
        = pr_while_f (normalized_corpus c) d (length c) (as_dict (keys c) (?F R))"
      by (simp add: pr_while_f_step [OF assms(1,2)])
    have mass': "mass c (?F R) \<le> 2"
      using assms(1-5) Suc.prems(1) by (rule mass_bound)
    let ?D = "l1 c R (?F R)" and ?D' = "l1 c (?F R) (?F (?F R))" and ?E = "round_err c"
    have E0: "0 \<le> ?E"
      using growth_ge [of c] page_err_nonneg [of c] by (simp add: round_err_def)
    have "?D' \<le> d * ?D + 2 * ?E"
      using assms(1-3) d1 Suc.prems(1) mass' by (rule delta_step)
    moreover have "2 * ?E \<le> (1 - d) * (200 * ?E)"
    proof -
      have "1 / 100 * (200 * ?E) \<le> (1 - d) * (200 * ?E)"
        using assms(4) E0 by (intro mult_right_mono) simp_all
      then show ?thesis by simp
    qed
    ultimately have "?D' - 200 * ?E \<le> d * (?D - 200 * ?E)"
      by (simp add: algebra_simps)
    then have "d ^ m * (?D' - 200 * ?E) \<le> d ^ m * (d * (?D - 200 * ?E))"
      using assms(3) by (intro mult_left_mono) simp_all
    also have "\<dots> = d ^ Suc m * (?D - 200 * ?E)"
      by simp
    finally have "d ^ m * (?D' - 200 * ?E) \<le> 1 / 2000"
      using Suc.prems(2) by simp
    from Suc.IH [OF mass' this] obtain k where k: "k \<le> m"
      and res: "pr_while_f (normalized_corpus c) d (length c) (as_dict (keys c) (?F R))
                  = Some (Inr (as_dict (keys c) ((?F ^^ Suc k) (?F R))))"
      by blast
    have "(?F ^^ Suc k) (?F R) = (?F ^^ Suc (Suc k)) R"
      by (simp add: funpow_swap1)
    with unfold res have "pr_while_f (normalized_corpus c) d (length c) (as_dict (keys c) R)
        = Some (Inr (as_dict (keys c) ((?F ^^ Suc (Suc k)) R)))"
      by simp
    moreover have "Suc k \<le> Suc m"
      using k by simp
    ultimately show ?thesis
      by blast
  qed
qed

lemma iterate_pagerank_f_result:
  assumes "is_dict c" and "c \<noteq> []" and "0 \<le> d" and "d \<le> 99 / 100"
    and "length c \<le> 2 ^ 30"
  shows "\<exists>k. iterate_pagerank_f c d = Some (Inr (as_dict (keys c) (float_rank c d (Suc k))))"
proof -
  let ?R = "\<lambda>p::page. fl (1 / real (length c))"
  let ?D = "l1 c ?R (float_new_rank c d ?R)"
  have d1: "d < 1"
    using assms(4) by simp
  have "0 \<le> 2 * ?D"
    by (simp add: l1_def sum_nonneg)
  from power_below [OF assms(3) d1 this] obtain m where m: "d ^ m * (2 * ?D) \<le> 1 / 1000"
    by blast
  have E0: "0 \<le> round_err c"
    using growth_ge [of c] page_err_nonneg [of c] by (simp add: round_err_def)
  have "d ^ m * (?D - 200 * round_err c) \<le> d ^ m * ?D"
    using assms(3) E0 by (intro mult_left_mono) simp_all
  with m have "d ^ m * (?D - 200 * round_err c) \<le> 1 / 2000"
    by simp
  from pr_while_f_converges [OF assms mass_start [OF assms(1,2,5)] this] obtain k
    where "pr_while_f (normalized_corpus c) d (length c) (as_dict (keys c) ?R)
                   = Some (Inr (as_dict (keys c) ((float_new_rank c d ^^ Suc k) ?R)))"
    by blast
  then have "iterate_pagerank_f c d = Some (Inr (as_dict (keys c) (float_rank c d (Suc k))))"
    unfolding float_rank_funpow
    by (simp add: iterate_pagerank_f_def Let_def as_dict_def)
  then show ?thesis ..
qed

subsection \<open>The double-precision loop in a circle\<close>

text \<open>
  On \<open>ring_graph\<close> with damping factor \<open>d = 1 - 2 ^ - 53\<close> the term \<open>(1-d)/4\<close> is
  \<open>2 ^ - 55\<close>, and \<open>d * x\<close> is \<open>x - x * 2 ^ - 53\<close>, a double for \<open>x\<close> one of \<open>1/8\<close>, \<open>1/4\<close>, \<open>1/2\<close>.
  The sum of the two is \<open>x + x * 2 ^ - 53\<close> for \<open>x = 1/8\<close>, \<open>x\<close> itself for \<open>x = 1/4\<close> and
  \<open>x - x * 2 ^ - 54\<close> for \<open>x = 1/2\<close>: the first and the last lie halfway between two doubles
  and round to the even one, which is \<open>x\<close>. A round therefore only moves the ranks along
  the links: the third round gives back the ranks of the start, and every round has
  maximum difference \<open>1/4\<close>.
\<close>

lemmas ring_simps = ring_graph_def near_one_def ring_start_def ring_first_def ring_second_def

lemma ring_round_start:
  "round_loop_f ring_graph near_one 4 ring_start (keys ring_start) [] = Inr ring_first"
  by (simp add: ring_simps eval_simps fl_eval)

lemma ring_round_first:
  "round_loop_f ring_graph near_one 4 ring_first (keys ring_first) [] = Inr ring_second"
  by (simp add: ring_simps eval_simps fl_eval)

lemma ring_round_second:
  "round_loop_f ring_graph near_one 4 ring_second (keys ring_second) [] = Inr ring_start"
  by (simp add: ring_simps eval_simps fl_eval)

lemma ring_delta_start: "max_delta_f ring_graph ring_start ring_first = Inr (1/4)"
  by (simp add: ring_simps eval_simps max_delta_f_def fl_eval)

lemma ring_delta_first: "max_delta_f ring_graph ring_first ring_second = Inr (1/4)"
  by (simp add: ring_simps eval_simps max_delta_f_def fl_eval)

lemma ring_delta_second: "max_delta_f ring_graph ring_second ring_start = Inr (1/4)"
  by (simp add: ring_simps eval_simps max_delta_f_def fl_eval)

lemma ring_never_returns:
  assumes "pr_while_f ring_graph near_one 4 pr = Some y"
  shows "pr \<notin> {ring_start, ring_first, ring_second}"
proof (rule pr_while_f.raw_induct
    [where P = "\<lambda>c d n pr y. c = ring_graph \<and> d = near_one \<and> n = 4
                  \<longrightarrow> pr \<notin> {ring_start, ring_first, ring_second}",
     OF _ assms, THEN mp])
  show "ring_graph = ring_graph \<and> near_one = near_one \<and> (4::nat) = 4"
    by simp
next
  fix f :: "corpus \<Rightarrow> real \<Rightarrow> nat \<Rightarrow> dist \<Rightarrow> (error + dist) option"
  fix c d n pr y
  assume IH: "\<And>c d n pr y. f c d n pr = Some y \<Longrightarrow>
      c = ring_graph \<and> d = near_one \<and> n = 4 \<longrightarrow> pr \<notin> {ring_start, ring_first, ring_second}"
  assume eq: "(case round_loop_f c d n pr (keys pr) [] of
        Inl e \<Rightarrow> Some (Inl e)
      | Inr new_pr \<Rightarrow>
         (case max_delta_f c pr new_pr of
            Inl e \<Rightarrow> Some (Inl e)
          | Inr m \<Rightarrow>
              if m \<le> fl (1 / 1000) then Some (Inr new_pr)
              else f c d n new_pr)) = Some y"
  show "c = ring_graph \<and> d = near_one \<and> n = 4
          \<longrightarrow> pr \<notin> {ring_start, ring_first, ring_second}"
  proof (intro impI notI)
    assume a: "c = ring_graph \<and> d = near_one \<and> n = 4"
      and mem: "pr \<in> {ring_start, ring_first, ring_second}"
    from mem consider "pr = ring_start" | "pr = ring_first" | "pr = ring_second"
      by blast
    then show False
    proof cases
      case 1
      with eq a have "f ring_graph near_one 4 ring_first = Some y"
        by (simp add: ring_round_start ring_delta_start fl_threshold)
      from IH [OF this] show False by simp
    next
      case 2
      with eq a have "f ring_graph near_one 4 ring_second = Some y"
        by (simp add: ring_round_first ring_delta_first fl_threshold)
      from IH [OF this] show False by simp
    next
      case 3
      with eq a have "f ring_graph near_one 4 ring_start = Some y"
        by (simp add: ring_round_second ring_delta_second fl_threshold)
      from IH [OF this] show False by simp
    qed
  qed
qed

subsection \<open>The claims about \<open>iterate_pagerank\<close>\<close>

text \<open>
  Claim C2. For a non-empty graph and a damping factor in \<open>(0,1)\<close>, \<open>iterate_pagerank\<close>
  works on the graph in which every dangling node has the set of all pages as its
  outlinks, starts from rank \<open>1/N\<close> for every page, and in every round computes for every
  page \<open>p\<close> the value \<open>(1-d)/N + d * \<Sum> rank(q)/outdegree(q)\<close> over the pages \<open>q\<close> whose
  normalised outlink set contains \<open>p\<close>, from the ranks of the round before only: the
  dictionary held after \<open>k\<close> rounds is the \<open>k\<close>-th iterate of the recurrence, and the
  result is the iterate of the first round whose maximum difference is at most 0.001.
\<close>

theorem iterate_pagerank_recurrence:
  assumes "is_dict c" and "c \<noteq> []" and "0 < d" and "d < 1"
  shows "keys (normalized_corpus c) = keys c
       \<and> (\<forall>q \<in> set (keys c). lookup (normalized_corpus c) q = Inr (spec_outlinks c q))
       \<and> (\<forall>k. rank_held c d k = Inr (as_dict (keys c) (spec_rank c d k)))
       \<and> (\<exists>k. iterate_pagerank c d = Some (Inr (as_dict (keys c) (spec_rank c d (Suc k))))
              \<and> spec_delta c d k \<le> 1 / 1000
              \<and> (\<forall>j<k. 1 / 1000 < spec_delta c d j))"
proof -
  have "0 \<le> d"
    using assms(3) by simp
  from iterate_pagerank_result [OF assms(1,2) this assms(4)]
  have "\<exists>k. iterate_pagerank c d = Some (Inr (as_dict (keys c) (spec_rank c d (Suc k))))
              \<and> spec_delta c d k \<le> 1 / 1000
              \<and> (\<forall>j<k. 1 / 1000 < spec_delta c d j)" .
  moreover have "\<forall>k. rank_held c d k = Inr (as_dict (keys c) (spec_rank c d k))"
    using rank_held_spec [OF assms(1,2)] by blast
  moreover have "\<forall>q \<in> set (keys c). lookup (normalized_corpus c) q = Inr (spec_outlinks c q)"
    using lookup_normalized by blast
  ultimately show ?thesis
    by simp
qed

theorem iterate_pagerank_recurrence_witness:
  "lookup (normalized_corpus dangling_pair) ''B'' = Inr {|''A'', ''B''|}
   \<and> as_dict (keys dangling_pair) (spec_rank dangling_pair (1/2) (Suc 0))
       = [(''A'', 3/8), (''B'', 5/8)]"
proof -
  have h: "is_dict dangling_pair" "dangling_pair \<noteq> []" "(0::real) < 1/2" "(1/2::real) < 1"
    by (simp_all add: dangling_pair_def is_dict_def)
  note r = iterate_pagerank_recurrence [OF h]
  have "''B'' \<in> set (keys dangling_pair)"
    by (simp add: dangling_pair_def keys_def)
  with r have "lookup (normalized_corpus dangling_pair) ''B''
                 = Inr (spec_outlinks dangling_pair ''B'')"
    by blast
  then have a: "lookup (normalized_corpus dangling_pair) ''B'' = Inr {|''A'', ''B''|}"
    by (simp add: dangling_pair_def spec_outlinks_def keys_def)
  from r have "rank_held dangling_pair (1/2) (Suc 0)
      = Inr (as_dict (keys dangling_pair) (spec_rank dangling_pair (1/2) (Suc 0)))"
    by blast
  moreover have "rank_held dangling_pair (1/2) (Suc 0) = Inr [(''A'', 3/8), (''B'', 5/8)]"
    by (simp add: dangling_pair_def eval_simps)
  ultimately have "as_dict (keys dangling_pair) (spec_rank dangling_pair (1/2) (Suc 0))
      = [(''A'', 3/8), (''B'', 5/8)]"
    by simp
  with a show ?thesis ..
qed

text \<open>
  The sum of the ranks in exact arithmetic: for a non-empty graph that satisfies the graph
  invariant the ranks of the recurrence sum to exactly 1 after every round, and so do the
  ranks that the loop in exact arithmetic returns.
\<close>

lemma exact_ranks_sum_to_one:
  assumes "is_dict c" and "c \<noteq> []" and "graph_invariant c" and "0 < d" and "d < 1"
  shows "(\<forall>k. \<exists>pr. rank_held c d k = Inr pr \<and> sum_list (map snd pr) = 1)
       \<and> (\<exists>pr. iterate_pagerank c d = Some (Inr pr) \<and> sum_list (map snd pr) = 1)"
proof -
  have "0 \<le> d"
    using assms(4) by simp
  from iterate_pagerank_result [OF assms(1,2) this assms(5)] obtain k
    where "iterate_pagerank c d = Some (Inr (as_dict (keys c) (spec_rank c d (Suc k))))"
    by blast
  then have "\<exists>pr. iterate_pagerank c d = Some (Inr pr) \<and> sum_list (map snd pr) = 1"
    using as_dict_sums_to_one [OF assms(1-3)] by blast
  moreover have "\<forall>k. \<exists>pr. rank_held c d k = Inr pr \<and> sum_list (map snd pr) = 1"
    using rank_held_spec [OF assms(1,2)] as_dict_sums_to_one [OF assms(1-3)] by blast
  ultimately show ?thesis by blast
qed

text \<open>
  Claim C5, as stated: for every non-empty graph and every damping factor strictly
  between 0 and 1 the loop of \<open>iterate_pagerank\<close> reaches a round whose maximum absolute
  difference is at most 0.001. It fails in double precision on \<open>ring_graph\<close>, a graph of
  four pages that satisfies the graph invariant, with the damping factor \<open>1 - 2 ^ - 53\<close>,
  a double strictly between 0 and 1: the ranks come back to those of the start after
  three rounds, every round has maximum difference \<open>1/4\<close>, and the loop never leaves.
\<close>

theorem iterate_pagerank_f_never_returns:
  "is_dict ring_graph \<and> ring_graph \<noteq> [] \<and> graph_invariant ring_graph
   \<and> 0 < near_one \<and> near_one < 1 \<and> fl near_one = near_one
   \<and> iterate_pagerank_f ring_graph near_one = None"
proof -
  have valid: "is_dict ring_graph \<and> ring_graph \<noteq> [] \<and> graph_invariant ring_graph"
    by (simp add: ring_graph_def is_dict_def graph_invariant_def keys_def)
  have double: "0 < near_one \<and> near_one < 1 \<and> fl near_one = near_one"
    by (simp add: near_one_def fl_eval)
  have start: "iterate_pagerank_f ring_graph near_one
      = pr_while_f ring_graph near_one 4 ring_start"
    by (simp add: iterate_pagerank_f_def ring_simps eval_simps fl_eval eval_nat_numeral)
  have "iterate_pagerank_f ring_graph near_one = None"
  proof (cases "pr_while_f ring_graph near_one 4 ring_start")
    case None
    with start show ?thesis by simp
  next
    case (Some y)
    from ring_never_returns [OF this] show ?thesis
      by simp
  qed
  with valid double show ?thesis
    by simp
qed

text \<open>
  Claim C5, amended. For a non-empty graph of at most \<open>2 ^ 30\<close> pages and a damping factor
  \<open>d\<close> with \<open>0 < d \<le> 0.99\<close>, \<open>iterate_pagerank\<close> in double precision terminates: the loop
  reaches a round whose maximum absolute difference is at most 0.001 and returns a
  distribution.
\<close>

theorem iterate_pagerank_f_terminates:
  assumes "is_dict c" and "c \<noteq> []" and "length c \<le> 2 ^ 30"
    and "0 < d" and "d \<le> 99 / 100"
  shows "\<exists>pr. iterate_pagerank_f c d = Some (Inr pr)"
proof -
  have "0 \<le> d"
    using assms(4) by simp
  from iterate_pagerank_f_result [OF assms(1,2) this assms(5,3)] show ?thesis
    by blast
qed

theorem iterate_pagerank_f_terminates_witness:
  "iterate_pagerank_f dangling_pair (1/2) = Some (Inr [(''A'', 819/2048), (''B'', 1229/2048)])"
proof -
  have h: "is_dict dangling_pair" "dangling_pair \<noteq> []" "length dangling_pair \<le> 2 ^ 30"
    "(0::real) < 1/2" "(1/2::real) \<le> 99 / 100"
    by (simp_all add: dangling_pair_def is_dict_def)
  from iterate_pagerank_f_terminates [OF h] obtain pr
    where pr: "iterate_pagerank_f dangling_pair (1/2) = Some (Inr pr)"
    by blast
  then have "pr = [(''A'', 819/2048), (''B'', 1229/2048)]"
    by (simp add: dangling_pair_def eval_simps float_simps fl_eval pr_while_f.simps)
  with pr show ?thesis
    by simp
qed

text \<open>
  Claim C10. For a non-empty graph and a damping factor \<open>d\<close> in \<open>(0,1)\<close>, every value of
  the distribution returned by \<open>iterate_pagerank\<close> is at least \<open>(1-d)/N\<close>, hence
  strictly positive.
\<close>

theorem iterate_pagerank_floor:
  assumes "is_dict c" and "c \<noteq> []" and "0 < d" and "d < 1"
  shows "\<exists>pr. iterate_pagerank c d = Some (Inr pr) \<and> keys pr = keys c
            \<and> (\<forall>v \<in> set (map snd pr). (1 - d) / real (length c) \<le> v \<and> 0 < v)"
proof -
  have d: "0 \<le> d" "d \<le> 1"
    using assms(3,4) by simp_all
  from iterate_pagerank_result [OF assms(1,2) d(1) assms(4)] obtain k
    where res: "iterate_pagerank c d = Some (Inr (as_dict (keys c) (spec_rank c d (Suc k))))"
    by blast
  have pos: "0 < (1 - d) / real (length c)"
    using assms(2,4) by simp
  have "\<forall>v \<in> set (map snd (as_dict (keys c) (spec_rank c d (Suc k)))).
          (1 - d) / real (length c) \<le> v \<and> 0 < v"
  proof
    fix v assume "v \<in> set (map snd (as_dict (keys c) (spec_rank c d (Suc k))))"
    then obtain p where v: "v = spec_rank c d (Suc k) p"
      by (auto simp: as_dict_def)
    have "(1 - d) / real (length c) \<le> spec_rank c d (Suc k) p"
      using spec_rank_lower [OF d] by blast
    with pos show "(1 - d) / real (length c) \<le> v \<and> 0 < v"
      unfolding v by linarith
  qed
  with res show ?thesis
    by (intro exI [of _ "as_dict (keys c) (spec_rank c d (Suc k))"]) simp
qed

theorem iterate_pagerank_floor_witness:
  "iterate_pagerank dangling_pair (1/2) = Some (Inr [(''A'', 819/2048), (''B'', 1229/2048)])
   \<and> (1 - 1/2) / real (length dangling_pair) \<le> (819/2048 :: real)"
proof -
  have h: "is_dict dangling_pair" "dangling_pair \<noteq> []" "(0::real) < 1/2" "(1/2::real) < 1"
    by (simp_all add: dangling_pair_def is_dict_def)
  from iterate_pagerank_floor [OF h] obtain pr
    where pr: "iterate_pagerank dangling_pair (1/2) = Some (Inr pr)"
      and low: "\<forall>v \<in> set (map snd pr). (1 - 1/2) / real (length dangling_pair) \<le> v \<and> 0 < v"
    by blast
  from pr have "pr = [(''A'', 819/2048), (''B'', 1229/2048)]"
    by (simp add: dangling_pair_def eval_simps pr_while.simps)
  with pr low show ?thesis
    by simp
qed

text \<open>
  Claim C7, as stated: the maximum absolute rank difference never grows from one round to
  the next. It fails on \<open>hub_graph\<close> with damping factor 0.85: the first round has maximum
  difference \<open>17/120\<close>, above the threshold, so the loop goes on, and the second round has
  the larger maximum difference \<open>289/1200\<close>.
\<close>

theorem max_delta_grows:
  "round_delta hub_graph (17/20) 0 = Inr (17/120)
   \<and> round_delta hub_graph (17/20) (Suc 0) = Inr (289/1200)
   \<and> \<not> (17/120 :: real) \<le> 1/1000
   \<and> (17/120 :: real) < 289/1200"
  by (simp add: hub_graph_def eval_simps)

text \<open>
  The same in double precision, with the double nearest to 0.85 as damping factor: the
  first round of \<open>hub_graph\<close> has a maximum difference above the threshold, the second a
  larger one.
\<close>

lemma max_delta_f_grows:
  "fl (17 / 20) = 7656119366529843 / 9007199254740992
   \<and> round_delta_f hub_graph (fl (17 / 20)) 0 = Inr (5104079577686563 / 36028797018963968)
   \<and> round_delta_f hub_graph (fl (17 / 20)) (Suc 0) = Inr (2169233820516789 / 9007199254740992)
   \<and> fl (1 / 1000) < (5104079577686563 / 36028797018963968 :: real)
   \<and> (5104079577686563 / 36028797018963968 :: real) < 2169233820516789 / 9007199254740992"
proof -
  have d: "fl (17 / 20) = 7656119366529843 / 9007199254740992"
    by (simp add: fl_eval)
  have "round_delta_f hub_graph (7656119366529843 / 9007199254740992) 0
      = Inr (5104079577686563 / 36028797018963968)"
    by (simp add: hub_graph_def eval_simps float_simps fl_eval)
  moreover have "round_delta_f hub_graph (7656119366529843 / 9007199254740992) (Suc 0)
      = Inr (2169233820516789 / 9007199254740992)"
    by (simp add: hub_graph_def eval_simps float_simps fl_eval)
  ultimately show ?thesis
    by (simp add: d fl_threshold)
qed

text \<open>
  Claim C7, amended. For a non-empty graph of at most \<open>2 ^ 30\<close> pages and a damping factor
  \<open>d\<close> with \<open>0 < d \<le> 0.99\<close>, in double precision: as long as the loop has not converged,
  that is, the maximum absolute difference of a round is above the threshold 0.001, the
  sum over all pages of the absolute rank differences does not grow from that round to
  the next, and the maximum absolute difference of the round is at most the sum of the
  round. (The maximum itself may grow from one round to the next.)
\<close>

theorem round_delta_sum_f_shrinks:
  assumes "is_dict c" and "c \<noteq> []" and "length c \<le> 2 ^ 30"
    and "0 < d" and "d \<le> 99 / 100"
    and "round_delta_f c d k = Inr m" and "fl (1 / 1000) < m"
  shows "\<exists>a b. round_delta_sum_f c d k = Inr a \<and> round_delta_sum_f c d (Suc k) = Inr b
            \<and> b \<le> a \<and> m \<le> a"
proof -
  let ?R = "float_rank c d k" and ?F = "float_new_rank c d"
  let ?a = "float_delta_sum c ?R (?F ?R)" and ?b = "float_delta_sum c (?F ?R) (?F (?F ?R))"
  have d: "0 \<le> d"
    using assms(4) by simp
  have m: "m = float_delta c ?R (?F ?R)"
    using assms(6) by (simp add: round_delta_f_float [OF assms(1,2)])
  then have ma: "m \<le> ?a"
    using float_delta_le_sum [OF assms(2)] by simp
  have "1 / 1000 \<le> fl (1 / 1000)"
    by (simp add: fl_threshold)
  with assms(7) ma have "1 / 1000 < ?a"
    by linarith
  moreover have "mass c ?R \<le> 2"
    using assms(1,2) d assms(5,3) by (rule mass_float_rank)
  ultimately have "?b \<le> ?a"
    using assms(1,2) d assms(5,3) by (intro float_delta_sum_shrinks)
  moreover have "round_delta_sum_f c d k = Inr ?a"
    by (simp add: round_delta_sum_f_float [OF assms(1,2)])
  moreover have "round_delta_sum_f c d (Suc k) = Inr ?b"
    by (simp add: round_delta_sum_f_float [OF assms(1,2)])
  ultimately show ?thesis
    using ma by blast
qed

theorem round_delta_sum_f_shrinks_witness:
  "round_delta_f hub_graph (3/4) 0 = Inr (4503599627370497/36028797018963968)
   \<and> round_delta_sum_f hub_graph (3/4) 0 = Inr (27021597764222979/36028797018963968)
   \<and> round_delta_sum_f hub_graph (3/4) (Suc 0) = Inr (6755399441055745/18014398509481984)
   \<and> (6755399441055745/18014398509481984 :: real) \<le> 27021597764222979/36028797018963968"
proof -
  have m: "round_delta_f hub_graph (3/4) 0 = Inr (4503599627370497/36028797018963968)"
    by (simp add: hub_graph_def eval_simps float_simps fl_eval)
  have h: "is_dict hub_graph" "hub_graph \<noteq> []" "length hub_graph \<le> 2 ^ 30"
    "(0::real) < 3/4" "(3/4::real) \<le> 99 / 100"
    by (simp_all add: hub_graph_def is_dict_def)
  have t: "fl (1 / 1000) < (4503599627370497/36028797018963968 :: real)"
    by (simp add: fl_threshold)
  from round_delta_sum_f_shrinks [OF h m t] obtain a b
    where a: "round_delta_sum_f hub_graph (3/4) 0 = Inr a"
      and b: "round_delta_sum_f hub_graph (3/4) (Suc 0) = Inr b"
      and le: "b \<le> a"
    by blast
  from a have "a = 27021597764222979/36028797018963968"
    by (simp add: hub_graph_def eval_simps float_simps fl_eval)
  moreover from b have "b = 6755399441055745/18014398509481984"
    by (simp add: hub_graph_def eval_simps float_simps fl_eval)
  ultimately show ?thesis
    using a b le m by simp
qed

subsection \<open>The counters of \<open>sample_pagerank\<close>\<close>

lemma keys_update:
  "k \<in> set (keys al) \<Longrightarrow> keys (AList.update k v al) = keys al"
  by (simp add: keys_def update_keys)

lemma lookup_update_same: "lookup (AList.update k v al) k = Inr v"
  by (simp add: lookup_def update_conv')

lemma total_update:
  "map_of sample k = Some c \<Longrightarrow> total (AList.update k (Suc c) sample) = Suc (total sample)"
  by (induction sample) (auto simp: total_def)

lemma transform_loop_keys:
  assumes "set ps \<subseteq> set (keys tm)"
  shows "\<exists>t. transform_loop tm ps th acc = Inr t \<and> set (keys t) = set (keys acc) \<union> set ps"
  using assms
proof (induction ps arbitrary: th acc)
  case Nil
  then show ?case by simp
next
  case (Cons p ps)
  then have "p \<in> set (keys tm)"
    by simp
  then obtain v where v: "lookup tm p = Inr v"
    using lookup_key by blast
  have "set ps \<subseteq> set (keys tm)"
    using Cons.prems by simp
  from Cons.IH [OF this, of "th + v" "AList.update p (th, th + v) acc"]
  obtain t where "transform_loop tm ps (th + v) (AList.update p (th, th + v) acc) = Inr t"
    and "set (keys t) = set (keys (AList.update p (th, th + v) acc)) \<union> set ps"
    by blast
  then show ?case
    using v by (auto simp: keys_def dom_update)
qed

lemma transform_model_keys:
  "\<exists>t. transform_model tm = Inr t \<and> set (keys t) = set (keys tm)"
  using transform_loop_keys [of "keys tm" tm 0 "[]"]
  by (simp add: transform_model_def keys_def)

lemma transition_model_keys:
  assumes "page \<in> set (keys corpus)"
  shows "\<exists>tm. transition_model corpus page d = Inr tm \<and> keys tm = keys corpus"
proof -
  obtain links where "lookup corpus page = Inr links"
    using lookup_key [OF assms] by blast
  then show ?thesis
    by (cases "links = {||}") (simp_all add: transition_model_def)
qed

lemma pick_loop_page:
  assumes "set ps \<subseteq> set (keys model)"
  shows "\<exists>p'. pick_loop model ps r page = Inr p' \<and> (p' = page \<or> p' \<in> set ps)"
  using assms
proof (induction ps)
  case Nil
  then show ?case by simp
next
  case (Cons p ps)
  then have "p \<in> set (keys model)"
    by simp
  then obtain iv where iv: "lookup model p = Inr iv"
    using lookup_key by blast
  obtain lo hi where lohi: "iv = (lo, hi)"
    by (cases iv)
  from Cons obtain p' where "pick_loop model ps r page = Inr p'" "p' = page \<or> p' \<in> set ps"
    by auto
  then show ?case
    using iv lohi by auto
qed

lemma fill_cache_inv:
  assumes "page \<in> set (keys corpus)" and "keys models = keys corpus"
    and "\<forall>p t. map_of models p = Some (Some t) \<longrightarrow> set (keys t) \<subseteq> set (keys corpus)"
  shows "\<exists>models' model. fill_cache corpus d page models = Inr models'
           \<and> keys models' = keys corpus
           \<and> (\<forall>p t. map_of models' p = Some (Some t) \<longrightarrow> set (keys t) \<subseteq> set (keys corpus))
           \<and> lookup models' page = Inr (Some model)
           \<and> set (keys model) \<subseteq> set (keys corpus)"
proof -
  have "page \<in> set (keys models)"
    using assms(1,2) by simp
  then obtain cached where cached: "lookup models page = Inr cached"
    using lookup_key by blast
  show ?thesis
  proof (cases cached)
    case (Some m)
    then have "map_of models page = Some (Some m)"
      using cached by (simp add: lookup_def split: option.splits)
    then have "set (keys m) \<subseteq> set (keys corpus)"
      using assms(3) by blast
    then show ?thesis
      using cached Some assms(2,3) by (simp add: fill_cache_def)
  next
    case None
    obtain tm where tm: "transition_model corpus page d = Inr tm" "keys tm = keys corpus"
      using transition_model_keys [OF assms(1)] by blast
    obtain t where t: "transform_model tm = Inr t" "set (keys t) = set (keys tm)"
      using transform_model_keys by blast
    let ?m = "AList.update page (Some t) models"
    have f: "fill_cache corpus d page models = Inr ?m"
      using cached None tm(1) t(1) by (simp add: fill_cache_def)
    have k: "keys ?m = keys corpus"
      using assms(1,2) by (simp add: keys_update)
    have c: "\<forall>p u. map_of ?m p = Some (Some u) \<longrightarrow> set (keys u) \<subseteq> set (keys corpus)"
      using assms(3) t(2) tm(2) by (auto simp: update_conv' split: if_splits)
    have "lookup ?m page = Inr (Some t)"
      by (rule lookup_update_same)
    with f k c show ?thesis
      using t(2) tm(2) by auto
  qed
qed

lemma sample_step_inv:
  assumes "sampler_inv corpus (page, sample, models)"
  shows "\<exists>page' sample' models'.
           sample_step corpus d r (page, sample, models) = Inr (page', sample', models')
           \<and> sampler_inv corpus (page', sample', models')
           \<and> total sample' = Suc (total sample)"
proof -
  from assms have pg: "page \<in> set (keys corpus)" and ks: "keys sample = keys corpus"
    and km: "keys models = keys corpus"
    and cm: "\<forall>p t. map_of models p = Some (Some t) \<longrightarrow> set (keys t) \<subseteq> set (keys corpus)"
    by (simp_all add: sampler_inv_def)
  from fill_cache_inv [OF pg km cm, of d] obtain models' model
    where f: "fill_cache corpus d page models = Inr models'"
      and km': "keys models' = keys corpus"
      and cm': "\<forall>p t. map_of models' p = Some (Some t) \<longrightarrow> set (keys t) \<subseteq> set (keys corpus)"
      and lm: "lookup models' page = Inr (Some model)"
      and sub: "set (keys model) \<subseteq> set (keys corpus)"
    by blast
  from pick_loop_page [of "keys model" model r page] obtain page'
    where pk: "pick_loop model (keys model) r page = Inr page'"
      and "page' = page \<or> page' \<in> set (keys model)"
    by auto
  then have pg': "page' \<in> set (keys corpus)"
    using pg sub by auto
  then have "page' \<in> set (keys sample)"
    using ks by simp
  then obtain count where ct: "lookup sample page' = Inr count"
    using lookup_key by blast
  then have mo: "map_of sample page' = Some count"
    by (simp add: lookup_def split: option.splits)
  let ?s = "AList.update page' (count + 1) sample"
  have step: "sample_step corpus d r (page, sample, models) = Inr (page', ?s, models')"
    using f lm pk ct by (simp add: sample_step_def)
  have "keys ?s = keys corpus"
    using pg' ks by (simp add: keys_update)
  then have "sampler_inv corpus (page', ?s, models')"
    using pg' km' cm' by (simp add: sampler_inv_def)
  moreover have "total ?s = Suc (total sample)"
    using total_update [OF mo] by simp
  ultimately show ?thesis
    using step by blast
qed

lemma sample_loop_inv:
  assumes "sampler_inv corpus (page, sample, models)"
  shows "\<exists>page' sample' models'.
           sample_loop corpus d rnd i m (page, sample, models) = Inr (page', sample', models')
           \<and> sampler_inv corpus (page', sample', models')
           \<and> total sample' = total sample + m"
  using assms
proof (induction m arbitrary: i page sample models)
  case 0
  then show ?case by simp
next
  case (Suc m)
  from sample_step_inv [OF Suc.prems, of d "rnd i"] obtain p1 s1 m1
    where st: "sample_step corpus d (rnd i) (page, sample, models) = Inr (p1, s1, m1)"
      and inv: "sampler_inv corpus (p1, s1, m1)"
      and tot: "total s1 = Suc (total sample)"
    by blast
  from Suc.IH [OF inv, of "Suc i"] obtain p2 s2 m2
    where "sample_loop corpus d rnd (Suc i) m (p1, s1, m1) = Inr (p2, s2, m2)"
      and "sampler_inv corpus (p2, s2, m2)"
      and "total s2 = total s1 + m"
    by blast
  then show ?case
    using st tot by simp
qed

lemma total_initial:
  assumes "distinct ks" and "page \<in> set ks"
  shows "total (map (\<lambda>p. (p, if p = page then 1 else 0)) ks) = 1"
  using assms by (induction ks) (auto simp: total_def comp_def)

lemma visit_counts_total:
  assumes "is_dict corpus" and "corpus \<noteq> []"
  shows "\<exists>sample. visit_counts corpus d n choice rnd = Inr sample
            \<and> keys sample = keys corpus \<and> total sample = Suc (nat n)"
proof -
  let ?ks = "keys corpus"
  let ?page = "?ks ! (choice mod length ?ks)"
  let ?sample = "map (\<lambda>p. (p, if p = ?page then 1 else 0)) ?ks"
  let ?models = "map (\<lambda>p. (p, None :: intervals option)) ?ks"
  have ne: "?ks \<noteq> []"
    using assms(2) by (simp add: keys_def)
  have "choice mod length ?ks < length ?ks"
    using assms(2) by (intro mod_less_divisor) (simp add: keys_def)
  then have pg: "?page \<in> set ?ks"
    by (rule nth_mem)
  have dist: "distinct ?ks"
    using assms(1) by (simp add: is_dict_def keys_def)
  have none: "map_of ?models p \<noteq> Some (Some t)" for p t
    by (induction ?ks) (auto simp: map_of_map_restrict restrict_map_def)
  have inv: "sampler_inv corpus (?page, ?sample, ?models)"
    using pg none by (simp add: sampler_inv_def)
  from sample_loop_inv [OF inv, of d rnd 0 "nat n"] obtain p' s' m'
    where lp: "sample_loop corpus d rnd 0 (nat n) (?page, ?sample, ?models) = Inr (p', s', m')"
      and inv': "sampler_inv corpus (p', s', m')"
      and tot: "total s' = total ?sample + nat n"
    by blast
  have "visit_counts corpus d n choice rnd = Inr s'"
    using ne lp by (simp add: visit_counts_def Let_def)
  moreover have "keys s' = keys corpus"
    using inv' by (simp add: sampler_inv_def)
  moreover have "total s' = Suc (nat n)"
    using tot total_initial [OF dist pg] by simp
  ultimately show ?thesis
    by blast
qed

lemma sample_pagerank_sum:
  assumes "is_dict corpus" and "corpus \<noteq> []" and "1 \<le> n"
  shows "\<exists>ranks. sample_pagerank corpus d n choice rnd = Inr ranks
            \<and> keys ranks = keys corpus
            \<and> sum_list (map snd ranks) = (real_of_int n + 1) / real_of_int n"
proof -
  from visit_counts_total [OF assms(1,2), of d n choice rnd] obtain sample
    where v: "visit_counts corpus d n choice rnd = Inr sample"
      and k: "keys sample = keys corpus" and t: "total sample = Suc (nat n)"
    by blast
  let ?ranks = "map (\<lambda>(key, value). (key, real value / real_of_int n)) sample"
  have r: "sample_pagerank corpus d n choice rnd = Inr ?ranks"
    using v assms(3) by (simp add: sample_pagerank_def)
  have "sum_list (map snd ?ranks) = (\<Sum>x\<leftarrow>sample. real (snd x) / real_of_int n)"
    by (simp add: comp_def case_prod_unfold)
  also have "\<dots> = real (total sample) / real_of_int n"
    by (induction sample) (simp_all add: total_def add_divide_distrib)
  also have "\<dots> = (real_of_int n + 1) / real_of_int n"
    using t assms(3) by simp
  finally have "sum_list (map snd ?ranks) = (real_of_int n + 1) / real_of_int n" .
  moreover have "keys ?ranks = keys corpus"
    using k by (simp add: keys_def comp_def case_prod_unfold)
  ultimately show ?thesis
    using r by blast
qed

text \<open>
  Claim C3 says that the starting page is the first of the \<open>n\<close> samples, that \<open>n-1\<close>
  steps follow, that the counters sum to \<open>n\<close> and the returned values to 1. The loop
  \<open>for i in range(n)\<close> makes \<open>n\<close> steps after the starting page was counted
  (\<open>visit_counts_total\<close>, \<open>sample_pagerank_sum\<close>: the counters sum to \<open>n+1\<close> and the
  values to \<open>(n+1)/n\<close> on every graph). On two pages that link to each other, with
  \<open>n = 2\<close>, the counters are 2 and 1 and the values 1 and 1/2.
\<close>

theorem sample_pagerank_counts_start_and_n_steps:
  "visit_counts two_cycle (17/20) 2 0 (\<lambda>i. 1/2) = Inr [(''A'', 2), (''B'', 1)]
   \<and> sample_pagerank two_cycle (17/20) 2 0 (\<lambda>i. 1/2) = Inr [(''A'', 1), (''B'', 1/2)]
   \<and> sum_list (map snd [(''A'', 1::real), (''B'', 1/2)]) = 3/2"
  by (simp add: two_cycle_def eval_simps numeral_2_eq_2)

text \<open>
  Claim C6 says that on a graph of one page without links both functions return the
  distribution that maps the page to 1. \<open>iterate_pagerank\<close> does; \<open>sample_pagerank\<close>
  with \<open>n = 1\<close> returns 2 for the page, because the loop makes \<open>n\<close> steps after the
  starting page was counted.
\<close>

theorem single_page_results:
  "sample_pagerank single_page (17/20) 1 0 (\<lambda>i. 0) = Inr [(''A'', 2)]
   \<and> iterate_pagerank single_page (17/20) = Some (Inr [(''A'', 1)])"
  by (simp add: single_page_def eval_simps pr_while.simps)

subsection \<open>Writes to the store\<close>

lemma then_do_Inr [simp]:
  "then_do x f = Inr z \<longleftrightarrow> (\<exists>y. x = Inr y \<and> f y = Inr z)"
  by (cases x) (simp_all add: then_do_def)

lemma unchanged_refl [simp]: "unchanged n h h"
  by (simp add: unchanged_def)

lemma unchanged_trans:
  "unchanged n h h' \<Longrightarrow> unchanged n h' h'' \<Longrightarrow> unchanged n h h''"
  by (simp add: unchanged_def)

lemma unchanged_length: "unchanged n h h' \<Longrightarrow> n \<le> length h \<Longrightarrow> n \<le> length h'"
  by (simp add: unchanged_def)

lemma unchanged_alloc:
  assumes "alloc h ob = (a, h')" and "n \<le> length h"
  shows "unchanged n h h' \<and> n \<le> a"
  using assms by (auto simp: alloc_def unchanged_def)

lemma unchanged_dict_set:
  assumes "dict_set h a k v = Inr h'" and "n \<le> a"
  shows "unchanged n h h'"
  using assms by (auto simp: dict_set_def unchanged_def)

lemma unchanged_transform_loop:
  assumes "transform_loop_s h tm t ps th = Inr h'" and "n \<le> t"
  shows "unchanged n h h'"
  using assms
proof (induction ps arbitrary: h th)
  case Nil
  then show ?case by simp
next
  case (Cons p ps)
  from Cons.prems(1) obtain v h1
    where set: "dict_set h t p (Interval th (th + v)) = Inr h1"
      and rest: "transform_loop_s h1 tm t ps (th + v) = Inr h'"
    by auto
  have "unchanged n h h1"
    using set Cons.prems(2) by (rule unchanged_dict_set)
  moreover have "unchanged n h1 h'"
    using rest Cons.prems(2) by (rule Cons.IH)
  ultimately show ?case
    by (rule unchanged_trans)
qed

lemma unchanged_transform_model:
  assumes "transform_model_s h tm = Inr (t, h')" and "n \<le> length h"
  shows "unchanged n h h' \<and> n \<le> t"
proof -
  from assms(1) obtain d :: "(page \<times> val) list"
    where lp: "transform_loop_s (h @ [DictObj []]) tm (length h) (keys d) 0 = Inr h'"
      and t: "t = length h"
    by (auto simp: transform_model_s_def alloc_def)
  have a: "unchanged n h (h @ [DictObj []])"
    using assms(2) by (simp add: unchanged_def)
  from unchanged_transform_loop [OF lp assms(2)] a show ?thesis
    using assms(2) t by (auto intro: unchanged_trans)
qed

lemma unchanged_transition_model:
  assumes "transition_model_s h corpus page d = Inr (tm, h')" and "n \<le> length h"
  shows "unchanged n h h' \<and> n \<le> tm"
proof -
  from assms(1) obtain ob where "alloc h ob = (tm, h')"
    by (auto simp: transition_model_s_def Let_def split: if_splits)
  then show ?thesis
    using assms(2) by (rule unchanged_alloc)
qed

lemma unchanged_fill_cache:
  assumes "fill_cache_s h corpus models d page = Inr h'"
    and "n \<le> length h" and "n \<le> models"
  shows "unchanged n h h'"
proof -
  from assms(1) obtain cached where c: "dict_get h models page = Inr cached"
    and body: "(case cached of
         NoneVal \<Rightarrow>
           then_do (transition_model_s h corpus page d) (\<lambda>(tm, h1).
           then_do (transform_model_s h1 tm) (\<lambda>(t, h2).
             dict_set h2 models page (Ref t)))
       | _ \<Rightarrow> Inr h) = Inr h'"
    by (auto simp: fill_cache_s_def)
  show ?thesis
  proof (cases "cached = NoneVal")
    case False
    with body have "h' = h"
      by (cases cached) simp_all
    then show ?thesis by simp
  next
    case True
    with body obtain tm h1 t h2
      where tm: "transition_model_s h corpus page d = Inr (tm, h1)"
        and t: "transform_model_s h1 tm = Inr (t, h2)"
        and set: "dict_set h2 models page (Ref t) = Inr h'"
      by auto
    from unchanged_transition_model [OF tm assms(2)] have a: "unchanged n h h1"
      by simp
    then have "n \<le> length h1"
      using assms(2) by (rule unchanged_length)
    from unchanged_transform_model [OF t this] have b: "unchanged n h1 h2"
      by simp
    have c: "unchanged n h2 h'"
      using set assms(3) by (rule unchanged_dict_set)
    from a b c show ?thesis
      by (blast intro: unchanged_trans)
  qed
qed

lemma unchanged_sample_step:
  assumes "sample_step_s h corpus sample models d r page = Inr (page', h')"
    and "n \<le> length h" and "n \<le> sample" and "n \<le> models"
  shows "unchanged n h h'"
proof -
  from assms(1) obtain h1 count
    where f: "fill_cache_s h corpus models d page = Inr h1"
      and set: "dict_set h1 sample page' (Count (count + 1)) = Inr h'"
    by (auto simp: sample_step_s_def)
  have "unchanged n h h1"
    using f assms(2,4) by (rule unchanged_fill_cache)
  moreover have "unchanged n h1 h'"
    using set assms(3) by (rule unchanged_dict_set)
  ultimately show ?thesis
    by (rule unchanged_trans)
qed

lemma unchanged_sample_loop:
  assumes "sample_loop_s h corpus sample models d rnd i m page = Inr (page', h')"
    and "n \<le> length h" and "n \<le> sample" and "n \<le> models"
  shows "unchanged n h h'"
  using assms(1,2)
proof (induction m arbitrary: h i page)
  case 0
  then show ?case by simp
next
  case (Suc m)
  from Suc.prems(1) obtain p1 h1
    where st: "sample_step_s h corpus sample models d (rnd i) page = Inr (p1, h1)"
      and rest: "sample_loop_s h1 corpus sample models d rnd (Suc i) m p1 = Inr (page', h')"
    by auto
  have a: "unchanged n h h1"
    using st Suc.prems(2) assms(3,4) by (rule unchanged_sample_step)
  then have "n \<le> length h1"
    using Suc.prems(2) by (rule unchanged_length)
  with rest have "unchanged n h1 h'"
    by (rule Suc.IH)
  with a show ?case
    by (rule unchanged_trans)
qed

lemma unchanged_sample_pagerank:
  assumes "sample_pagerank_s h corpus d k choice rnd = Inr (res, h')" and "n \<le> length h"
  shows "unchanged n h h' \<and> n \<le> res"
proof -
  from assms(1) obtain c where c: "dict_at h corpus = Inr c" and ne: "keys c \<noteq> []"
    by (auto simp: sample_pagerank_s_def split: if_splits)
  let ?page = "keys c ! (choice mod length (keys c))"
  obtain sample h1
    where a1: "alloc h (DictObj (map (\<lambda>p. (p, Count (if p = ?page then 1 else 0))) (keys c)))
                 = (sample, h1)"
    by (cases "alloc h (DictObj (map (\<lambda>p. (p, Count (if p = ?page then 1 else 0))) (keys c)))")
  obtain models h2
    where a2: "alloc h1 (DictObj (map (\<lambda>p. (p, NoneVal)) (keys c))) = (models, h2)"
    by (cases "alloc h1 (DictObj (map (\<lambda>p. (p, NoneVal)) (keys c)))")
  from assms(1) c ne a1 a2 obtain p' h3 rs
    where lp: "sample_loop_s h2 corpus sample models d rnd 0 (nat k) ?page = Inr (p', h3)"
      and a3: "alloc h3 (DictObj rs) = (res, h')"
    by (auto simp: sample_pagerank_s_def Let_def)
  from unchanged_alloc [OF a1 assms(2)] have u1: "unchanged n h h1" and ns: "n \<le> sample"
    by simp_all
  have l1: "n \<le> length h1"
    using u1 assms(2) by (rule unchanged_length)
  from unchanged_alloc [OF a2 l1] have u2: "unchanged n h1 h2" and nm: "n \<le> models"
    by simp_all
  have l2: "n \<le> length h2"
    using u2 l1 by (rule unchanged_length)
  have u3: "unchanged n h2 h3"
    using lp l2 ns nm by (rule unchanged_sample_loop)
  have l3: "n \<le> length h3"
    using u3 l2 by (rule unchanged_length)
  from unchanged_alloc [OF a3 l3] have u4: "unchanged n h3 h'" and nr: "n \<le> res"
    by simp_all
  from u1 u2 u3 u4 nr show ?thesis
    by (blast intro: unchanged_trans)
qed

lemma unchanged_round_loop:
  assumes "round_loop_s h corpus d N page_rank new_pr pages = Inr h'" and "n \<le> new_pr"
  shows "unchanged n h h'"
  using assms(1)
proof (induction pages arbitrary: h)
  case Nil
  then show ?case by simp
next
  case (Cons page pages)
  from Cons.prems obtain x h1
    where set: "dict_set h new_pr page (Num x) = Inr h1"
      and rest: "round_loop_s h1 corpus d N page_rank new_pr pages = Inr h'"
    by (auto split: if_splits)
  have "unchanged n h h1"
    using set assms(2) by (rule unchanged_dict_set)
  moreover have "unchanged n h1 h'"
    using rest by (rule Cons.IH)
  ultimately show ?case
    by (rule unchanged_trans)
qed

lemma unchanged_round:
  assumes "round_s h corpus d N page_rank = Inr ((new_pr, h'), m)" and "n \<le> length h"
  shows "unchanged n h h' \<and> n \<le> new_pr"
proof -
  from assms(1) obtain pr :: "(page \<times> val) list"
    where lp: "round_loop_s (h @ [DictObj []]) corpus d N page_rank (length h) (keys pr) = Inr h'"
      and new: "new_pr = length h"
    by (auto simp: round_s_def alloc_def)
  have "unchanged n h (h @ [DictObj []])"
    using assms(2) by (simp add: unchanged_def)
  moreover have "unchanged n (h @ [DictObj []]) h'"
    using lp assms(2) by (rule unchanged_round_loop)
  ultimately show ?thesis
    using assms(2) new by (auto intro: unchanged_trans)
qed

lemma unchanged_pr_while:
  assumes "pr_while_s h corpus d N page_rank = Some y"
  shows "\<forall>res h'. y = Inr (res, h') \<longrightarrow> n \<le> length h \<longrightarrow> unchanged n h h' \<and> n \<le> res"
proof (rule pr_while_s.raw_induct
    [where P = "\<lambda>h corpus d N page_rank y.
                  \<forall>res h'. y = Inr (res, h') \<longrightarrow> n \<le> length h \<longrightarrow> unchanged n h h' \<and> n \<le> res",
     OF _ assms])
  fix f :: "store \<Rightarrow> addr \<Rightarrow> real \<Rightarrow> nat \<Rightarrow> addr \<Rightarrow> (error + addr \<times> store) option"
    and h corpus d N page_rank y
  assume IH: "\<And>h corpus d N page_rank y. f h corpus d N page_rank = Some y \<Longrightarrow>
      \<forall>res h'. y = Inr (res, h') \<longrightarrow> n \<le> length h \<longrightarrow> unchanged n h h' \<and> n \<le> res"
    and eq: "(case round_s h corpus d N page_rank of
        Inl e \<Rightarrow> Some (Inl e)
      | Inr ((new_pr, h'), m) \<Rightarrow>
          if m \<le> 1 / 1000 then Some (Inr (new_pr, h'))
          else f h' corpus d N new_pr) = Some y"
  show "\<forall>res h'. y = Inr (res, h') \<longrightarrow> n \<le> length h \<longrightarrow> unchanged n h h' \<and> n \<le> res"
  proof (intro allI impI)
    fix res h' assume y: "y = Inr (res, h')" and n: "n \<le> length h"
    show "unchanged n h h' \<and> n \<le> res"
    proof (cases "round_s h corpus d N page_rank")
      case (Inl e)
      with eq y show ?thesis
        by simp
    next
      case (Inr r)
      obtain new_pr h1 m where r: "r = ((new_pr, h1), m)"
        by (metis surj_pair)
      from unchanged_round [OF Inr [unfolded r] n]
      have u: "unchanged n h h1" and nn: "n \<le> new_pr"
        by simp_all
      show ?thesis
      proof (cases "m \<le> 1 / 1000")
        case True
        with eq Inr r y have "res = new_pr" "h' = h1"
          by simp_all
        with u nn show ?thesis
          by simp
      next
        case False
        with eq Inr r have "f h1 corpus d N new_pr = Some y"
          by simp
        from IH [OF this] y unchanged_length [OF u n]
        have "unchanged n h1 h' \<and> n \<le> res"
          by blast
        with u show ?thesis
          by (blast intro: unchanged_trans)
      qed
    qed
  qed
qed

lemma unchanged_iterate_pagerank:
  assumes "iterate_pagerank_s h corpus d = Some (Inr (res, h'))" and "n \<le> length h"
  shows "unchanged n h h' \<and> n \<le> res"
proof -
  from assms(1) obtain c where c: "dict_at h corpus = Inr c"
    by (cases "dict_at h corpus") (simp_all add: iterate_pagerank_s_def)
  let ?h1 = "h @ [SetObj (fset_of_list (keys c))]"
  from assms(1) c obtain items where items: "normalized_items ?h1 (length h) c = Inr items"
    by (cases "normalized_items ?h1 (length h) c")
       (simp_all add: iterate_pagerank_s_def alloc_def)
  let ?h2 = "?h1 @ [DictObj items]"
  let ?h3 = "?h2 @ [DictObj (map (\<lambda>p. (p, Num (1 / real (length items)))) (keys items))]"
  from assms(1) c items
  have w: "pr_while_s ?h3 (length ?h1) d (length items) (length ?h2) = Some (Inr (res, h'))"
    by (simp add: iterate_pagerank_s_def alloc_def)
  have u: "unchanged n h ?h3"
    using assms(2) by (simp add: unchanged_def)
  have "n \<le> length ?h3"
    using assms(2) by simp
  with unchanged_pr_while [OF w, of n] have "unchanged n ?h3 h' \<and> n \<le> res"
    by blast
  with u show ?thesis
    by (blast intro: unchanged_trans)
qed

lemmas store_simps =
  transition_model_s_def sample_pagerank_s_def iterate_pagerank_s_def
  transform_model_s_def fill_cache_s_def sample_step_s_def round_s_def
  alloc_def dict_at_def set_at_def dict_get_def dict_set_def
  get_ref_def get_num_def get_count_def get_interval_def then_do_def
  store_of_def lookup_def keys_def fcard_finsert_if fcard_fempty Let_def

text \<open>
  Claim C9. None of \<open>transition_model\<close>, \<open>sample_pagerank\<close> and \<open>iterate_pagerank\<close>
  changes the graph passed in: when a call returns, every object that was in the store
  before the call, the dictionary of the graph and each of its outlink sets among them,
  is the same as before, and the result is an object that did not exist before. (The
  dictionary of line 110 and the set \<open>all_pages\<close> are new objects as well.)
\<close>

theorem graph_not_mutated:
  "(transition_model_s h corpus page d = Inr (res, h')
      \<longrightarrow> take (length h) h' = h \<and> length h \<le> res)
   \<and> (sample_pagerank_s h corpus d n choice rnd = Inr (res, h')
      \<longrightarrow> take (length h) h' = h \<and> length h \<le> res)
   \<and> (iterate_pagerank_s h corpus d = Some (Inr (res, h'))
      \<longrightarrow> take (length h) h' = h \<and> length h \<le> res)"
proof -
  have "take (length h) h' = h \<and> length h \<le> res"
    if "transition_model_s h corpus page d = Inr (res, h')"
    using unchanged_transition_model [OF that, of "length h"] by (simp add: unchanged_def)
  moreover have "take (length h) h' = h \<and> length h \<le> res"
    if "sample_pagerank_s h corpus d n choice rnd = Inr (res, h')"
    using unchanged_sample_pagerank [OF that, of "length h"] by (simp add: unchanged_def)
  moreover have "take (length h) h' = h \<and> length h \<le> res"
    if "iterate_pagerank_s h corpus d = Some (Inr (res, h'))"
    using unchanged_iterate_pagerank [OF that, of "length h"] by (simp add: unchanged_def)
  ultimately show ?thesis
    by blast
qed

theorem graph_not_mutated_witness:
  "transition_model_s (store_of dangling_pair) 2 ''A'' (1/2)
     = Inr (3, store_of dangling_pair @ [DictObj [(''A'', Num (1/4)), (''B'', Num (3/4))]])
   \<and> sample_pagerank_s (store_of single_page) 1 (17/20) 1 0 (\<lambda>i. 0)
     = Inr (6, store_of single_page @
          [DictObj [(''A'', Count 2)], DictObj [(''A'', Ref 5)], DictObj [(''A'', Num 1)],
           DictObj [(''A'', Interval 0 1)], DictObj [(''A'', Num 2)]])
   \<and> iterate_pagerank_s (store_of single_page) 1 (17/20)
     = Some (Inr (5, store_of single_page @
          [SetObj {|''A''|}, DictObj [(''A'', Ref 2)], DictObj [(''A'', Num 1)],
           DictObj [(''A'', Num 1)]]))
   \<and> take (length (store_of dangling_pair))
        (store_of dangling_pair @ [DictObj [(''A'', Num (1/4)), (''B'', Num (3/4))]])
       = store_of dangling_pair
   \<and> take (length (store_of single_page))
        (store_of single_page @
          [DictObj [(''A'', Count 2)], DictObj [(''A'', Ref 5)], DictObj [(''A'', Num 1)],
           DictObj [(''A'', Interval 0 1)], DictObj [(''A'', Num 2)]])
       = store_of single_page
   \<and> take (length (store_of single_page))
        (store_of single_page @
          [SetObj {|''A''|}, DictObj [(''A'', Ref 2)], DictObj [(''A'', Num 1)],
           DictObj [(''A'', Num 1)]])
       = store_of single_page"
proof -
  have e1: "transition_model_s (store_of dangling_pair) 2 ''A'' (1/2)
     = Inr (3, store_of dangling_pair @ [DictObj [(''A'', Num (1/4)), (''B'', Num (3/4))]])"
    by (simp add: dangling_pair_def store_simps)
  have e2: "sample_pagerank_s (store_of single_page) 1 (17/20) 1 0 (\<lambda>i. 0)
     = Inr (6, store_of single_page @
          [DictObj [(''A'', Count 2)], DictObj [(''A'', Ref 5)], DictObj [(''A'', Num 1)],
           DictObj [(''A'', Interval 0 1)], DictObj [(''A'', Num 2)]])"
    by (simp add: single_page_def store_simps)
  have e3: "iterate_pagerank_s (store_of single_page) 1 (17/20)
     = Some (Inr (5, store_of single_page @
          [SetObj {|''A''|}, DictObj [(''A'', Ref 2)], DictObj [(''A'', Num 1)],
           DictObj [(''A'', Num 1)]]))"
    by (simp add: single_page_def store_simps pr_while_s.simps)
  from graph_not_mutated [where h = "store_of dangling_pair" and corpus = 2
      and page = "''A''" and d = "1/2" and res = 3
      and h' = "store_of dangling_pair @ [DictObj [(''A'', Num (1/4)), (''B'', Num (3/4))]]"] e1
  have f1: "take (length (store_of dangling_pair))
        (store_of dangling_pair @ [DictObj [(''A'', Num (1/4)), (''B'', Num (3/4))]])
       = store_of dangling_pair"
    by blast
  from graph_not_mutated [where h = "store_of single_page" and corpus = 1
      and d = "17/20" and n = 1 and choice = 0 and rnd = "\<lambda>i. 0" and res = 6
      and h' = "store_of single_page @
          [DictObj [(''A'', Count 2)], DictObj [(''A'', Ref 5)], DictObj [(''A'', Num 1)],
           DictObj [(''A'', Interval 0 1)], DictObj [(''A'', Num 2)]]"] e2
  have f2: "take (length (store_of single_page))
        (store_of single_page @
          [DictObj [(''A'', Count 2)], DictObj [(''A'', Ref 5)], DictObj [(''A'', Num 1)],
           DictObj [(''A'', Interval 0 1)], DictObj [(''A'', Num 2)]])
       = store_of single_page"
    by blast
  from graph_not_mutated [where h = "store_of single_page" and corpus = 1
      and d = "17/20" and res = 5
      and h' = "store_of single_page @
          [SetObj {|''A''|}, DictObj [(''A'', Ref 2)], DictObj [(''A'', Num 1)],
           DictObj [(''A'', Num 1)]]"] e3
  have f3: "take (length (store_of single_page))
        (store_of single_page @
          [SetObj {|''A''|}, DictObj [(''A'', Ref 2)], DictObj [(''A'', Num 1)],
           DictObj [(''A'', Num 1)]])
       = store_of single_page"
    by blast
  from e1 e2 e3 f1 f2 f3 show ?thesis
    by (intro conjI)
qed

subsection \<open>The functions on the store compute what the functions on values compute\<close>

text \<open>
  On a store that holds the graph, each function on the store raises the same error as
  the function on values, or returns a new dictionary that holds the same numbers.
\<close>

lemma links_rel_keys: "list_all2 (links_rel h) d c \<Longrightarrow> keys d = keys c"
  by (induction rule: list_all2_induct) (simp_all add: keys_def links_rel_def)

lemma links_rel_lookup:
  assumes "list_all2 (links_rel h) d c"
  shows "case lookup c k of
           Inl e \<Rightarrow> lookup d k = Inl e
         | Inr links \<Rightarrow> \<exists>r. lookup d k = Inr (Ref r) \<and> set_at h r = Inr links"
  using assms
proof (induction rule: list_all2_induct)
  case Nil
  show ?case by (simp add: lookup_def)
next
  case (Cons x xs y ys)
  then show ?case
    by (cases x; cases y) (auto simp: lookup_def links_rel_def split: option.splits)
qed

lemma then_do_simps [simp]:
  "then_do (Inl e) f = Inl e" "then_do (Inr y) f = f y"
  by (simp_all add: then_do_def)

lemma get_ref_graph:
  assumes "graph_at h a c"
  shows "case lookup c k of
           Inl e \<Rightarrow> get_ref h a k = Inl e
         | Inr links \<Rightarrow> \<exists>r. get_ref h a k = Inr r \<and> set_at h r = Inr links"
proof -
  from assms obtain d where d: "dict_at h a = Inr d" and rel: "list_all2 (links_rel h) d c"
    by (auto simp: graph_at_def)
  from links_rel_lookup [OF rel, of k] show ?thesis
    by (auto simp: get_ref_def dict_get_def d split: sum.splits)
qed

lemma num_dict_map [simp]: "num_dict (map (\<lambda>p. (p, f p)) ks) = map (\<lambda>p. (p, Num (f p))) ks"
  by (simp add: num_dict_def)

lemma transition_model_s_refines:
  assumes "graph_at h a c"
  shows "transition_model_s h a page d =
           (case transition_model c page d of
              Inl e \<Rightarrow> Inl e
            | Inr t \<Rightarrow> Inr (alloc h (DictObj (num_dict t))))"
proof -
  from assms obtain dd where dd: "dict_at h a = Inr dd" and rel: "list_all2 (links_rel h) dd c"
    by (auto simp: graph_at_def)
  have k: "keys dd = keys c" and l: "length dd = length c"
    using rel by (simp_all add: links_rel_keys list_all2_lengthD)
  show ?thesis
  proof (cases "lookup c page")
    case (Inl e)
    with get_ref_graph [OF assms, of page] show ?thesis
      by (simp add: transition_model_s_def transition_model_def)
  next
    case (Inr links)
    with get_ref_graph [OF assms, of page] obtain r
      where "get_ref h a page = Inr r" "set_at h r = Inr links"
      by auto
    then show ?thesis
      using Inr dd k l by (simp add: transition_model_s_def transition_model_def Let_def)
  qed
qed

lemma dict_at_less: "dict_at h a = Inr d \<Longrightarrow> a < length h"
  by (simp add: dict_at_def split: if_splits)

lemma set_at_less: "set_at h a = Inr s \<Longrightarrow> a < length h"
  by (simp add: set_at_def split: if_splits)

lemma dict_set_result:
  assumes "dict_at h b = Inr d"
  shows "\<exists>h'. dict_set h b k v = Inr h' \<and> dict_at h' b = Inr (AList.update k v d)
           \<and> same_except b h h'"
  using assms dict_at_less [OF assms]
  by (simp add: dict_set_def same_except_def dict_at_def)

lemma same_except_dict_at:
  "same_except b h h' \<Longrightarrow> x \<noteq> b \<Longrightarrow> dict_at h' x = dict_at h x"
  by (simp add: same_except_def dict_at_def)

lemma same_except_set_at:
  assumes "same_except b h h'"
  shows "set_at h' x = set_at h x"
proof (cases "x = b")
  case False
  with assms show ?thesis
    by (simp add: same_except_def set_at_def)
next
  case True
  from assms obtain d d' where "dict_at h b = Inr d" "dict_at h' b = Inr d'"
    by (auto simp: same_except_def)
  then show ?thesis
    unfolding True by (auto simp: set_at_def dict_at_def split: if_splits obj.splits)
qed

lemma same_except_graph_at:
  assumes "same_except b h h'" and "graph_at h a c" and "a \<noteq> b"
  shows "graph_at h' a c"
proof -
  have "links_rel h' = links_rel h"
    by (simp add: fun_eq_iff links_rel_def same_except_set_at [OF assms(1)])
  then show ?thesis
    using assms by (simp add: graph_at_def same_except_dict_at)
qed

lemma lookup_num_dict:
  "lookup (num_dict pr) p = (case lookup pr p of Inl e \<Rightarrow> Inl e | Inr x \<Rightarrow> Inr (Num x))"
  by (induction pr) (auto simp: num_dict_def lookup_def)

lemma get_num_num_dict:
  "dict_at h a = Inr (num_dict pr) \<Longrightarrow> get_num h a p = lookup pr p"
  by (cases "lookup pr p") (simp_all add: get_num_def dict_get_def lookup_num_dict)

lemma num_dict_update:
  "num_dict (AList.update k x acc) = AList.update k (Num x) (num_dict acc)"
  by (induction acc) (auto simp: num_dict_def)

lemma keys_num_dict [simp]: "keys (num_dict pr) = keys pr"
  by (simp add: num_dict_def keys_def comp_def case_prod_unfold)

lemma lead_loop_s_refines:
  assumes "graph_at h corpus nc" and "dict_at h page_rank = Inr (num_dict pr)"
  shows "lead_loop_s h corpus page_rank page ps acc = lead_loop nc pr page ps acc"
proof (induction ps arbitrary: acc)
  case Nil
  show ?case by simp
next
  case (Cons p ps)
  show ?case
  proof (cases "lookup nc p")
    case (Inl e)
    with get_ref_graph [OF assms(1), of p] show ?thesis
      by simp
  next
    case (Inr links)
    with get_ref_graph [OF assms(1), of p] obtain r
      where "get_ref h corpus p = Inr r" "set_at h r = Inr links"
      by auto
    then show ?thesis
      using Inr Cons by (cases "lookup pr p") (simp_all add: get_num_num_dict [OF assms(2)])
  qed
qed

lemma round_loop_s_refines:
  assumes "graph_at h corpus nc" and "dict_at h page_rank = Inr (num_dict pr)"
    and "dict_at h new_pr = Inr (num_dict acc)"
    and "new_pr \<noteq> corpus" and "new_pr \<noteq> page_rank"
  shows "case round_loop nc d N pr pages acc of
           Inl e \<Rightarrow> round_loop_s h corpus d N page_rank new_pr pages = Inl e
         | Inr acc' \<Rightarrow>
             \<exists>h'. round_loop_s h corpus d N page_rank new_pr pages = Inr h'
                \<and> dict_at h' new_pr = Inr (num_dict acc') \<and> same_except new_pr h h'"
  using assms(1-3)
proof (induction pages arbitrary: h acc)
  case Nil
  have "same_except new_pr h h"
    using Nil(3) by (simp add: same_except_def)
  with Nil(3) show ?case
    by simp
next
  case (Cons page pages)
  from Cons.prems(1) obtain c where c: "dict_at h corpus = Inr c" and kc: "keys c = keys nc"
    by (auto simp: graph_at_def links_rel_keys)
  have lead: "lead_loop_s h corpus page_rank page (keys c) 0 = lead_loop nc pr page (keys nc) 0"
    unfolding kc using Cons.prems(1,2) by (rule lead_loop_s_refines)
  show ?case
  proof (cases "lead_loop nc pr page (keys nc) 0")
    case (Inl e)
    then show ?thesis
      using c lead by simp
  next
    case (Inr lead_pages)
    show ?thesis
    proof (cases "N = 0")
      case True
      then show ?thesis
        using c lead Inr by simp
    next
      case False
      let ?x = "(1 - d) / real N + d * lead_pages"
      from dict_set_result [OF Cons.prems(3), of page "Num ?x"] obtain h1
        where set: "dict_set h new_pr page (Num ?x) = Inr h1"
          and new: "dict_at h1 new_pr = Inr (num_dict (AList.update page ?x acc))"
          and se: "same_except new_pr h h1"
        by (auto simp: num_dict_update)
      have "corpus \<noteq> new_pr"
        using assms(4) by simp
      with se Cons.prems(1) have g1: "graph_at h1 corpus nc"
        by (rule same_except_graph_at)
      have p1: "dict_at h1 page_rank = Inr (num_dict pr)"
        using se Cons.prems(2) assms(5) by (simp add: same_except_dict_at)
      note IH = Cons.IH [OF g1 p1 new]
      have step: "round_loop_s h corpus d N page_rank new_pr (page # pages)
                    = round_loop_s h1 corpus d N page_rank new_pr pages"
        using c lead Inr False set by simp
      have pure: "round_loop nc d N pr (page # pages) acc
                    = round_loop nc d N pr pages (AList.update page ?x acc)"
        using Inr False by simp
      show ?thesis
      proof (cases "round_loop nc d N pr pages (AList.update page ?x acc)")
        case (Inl e)
        with IH show ?thesis
          unfolding step pure by simp
      next
        case (Inr acc')
        with IH obtain h' where "round_loop_s h1 corpus d N page_rank new_pr pages = Inr h'"
          and "dict_at h' new_pr = Inr (num_dict acc')" and se': "same_except new_pr h1 h'"
          by auto
        moreover have "same_except new_pr h h'"
          using se se' by (auto simp: same_except_def)
        ultimately show ?thesis
          unfolding step pure Inr by simp
      qed
    qed
  qed
qed

lemma deltas_s_refines:
  assumes "dict_at h page_rank = Inr (num_dict pr)" and "dict_at h new_pr = Inr (num_dict new)"
  shows "deltas_s h page_rank new_pr ps = deltas pr new ps"
proof (induction ps)
  case Nil
  show ?case by simp
next
  case (Cons p ps)
  then show ?case
    by (cases "lookup pr p"; cases "lookup new p"; cases "deltas pr new ps")
       (simp_all add: get_num_num_dict [OF assms(1)] get_num_num_dict [OF assms(2)])
qed

lemma dict_at_append:
  "x < length h \<Longrightarrow> dict_at (h @ hs) x = dict_at h x"
  by (simp add: dict_at_def nth_append)

lemma set_at_append:
  "x < length h \<Longrightarrow> set_at (h @ hs) x = set_at h x"
  by (simp add: set_at_def nth_append)

lemma dict_at_new [simp]: "dict_at (h @ [DictObj d]) (length h) = Inr d"
  by (simp add: dict_at_def)

lemma set_at_new [simp]: "set_at (h @ [SetObj s]) (length h) = Inr s"
  by (simp add: set_at_def)

lemma links_rel_append:
  assumes "links_rel h e e'"
  shows "links_rel (h @ hs) e e'"
proof -
  from assms obtain r where r: "snd e = Ref r" "set_at h r = Inr (snd e')" and k: "fst e = fst e'"
    by (auto simp: links_rel_def)
  have "set_at (h @ hs) r = Inr (snd e')"
    using r(2) set_at_less [OF r(2)] by (simp add: set_at_append)
  with r(1) k show ?thesis
    by (simp add: links_rel_def)
qed

lemma list_all2_links_rel_append:
  "list_all2 (links_rel h) d c \<Longrightarrow> list_all2 (links_rel (h @ hs)) d c"
  by (erule list_all2_mono) (rule links_rel_append)

lemma graph_at_append:
  assumes "graph_at h a c"
  shows "graph_at (h @ hs) a c"
proof -
  from assms obtain d where d: "dict_at h a = Inr d" and rel: "list_all2 (links_rel h) d c"
    by (auto simp: graph_at_def)
  have "dict_at (h @ hs) a = Inr d"
    using d dict_at_less [OF d] by (simp add: dict_at_append)
  then show ?thesis
    using list_all2_links_rel_append [OF rel] by (auto simp: graph_at_def)
qed

lemma round_s_refines:
  assumes "graph_at h corpus nc" and "dict_at h page_rank = Inr (num_dict pr)"
  shows "case round_loop nc d N pr (keys pr) [] of
           Inl e \<Rightarrow> round_s h corpus d N page_rank = Inl e
         | Inr new \<Rightarrow>
            (case max_delta nc pr new of
               Inl e \<Rightarrow> round_s h corpus d N page_rank = Inl e
             | Inr m \<Rightarrow>
                 \<exists>h'. round_s h corpus d N page_rank = Inr ((length h, h'), m)
                    \<and> dict_at h' (length h) = Inr (num_dict new)
                    \<and> graph_at h' corpus nc)"
proof -
  let ?h1 = "h @ [DictObj []]"
  have cl: "corpus < length h"
    using assms(1) by (auto simp: graph_at_def dest: dict_at_less)
  have pl: "page_rank < length h"
    using assms(2) by (rule dict_at_less)
  have g1: "graph_at ?h1 corpus nc"
    using assms(1) by (rule graph_at_append)
  have p1: "dict_at ?h1 page_rank = Inr (num_dict pr)"
    using assms(2) pl by (simp add: dict_at_append)
  have n1: "dict_at ?h1 (length h) = Inr (num_dict [])"
    by (simp add: num_dict_def)
  have ne: "length h \<noteq> corpus" "length h \<noteq> page_rank"
    using cl pl by simp_all
  note loop = round_loop_s_refines [OF g1 p1 n1 ne, of d N "keys pr"]
  have unfold: "round_s h corpus d N page_rank =
      then_do (round_loop_s ?h1 corpus d N page_rank (length h) (keys pr)) (\<lambda>h2.
      then_do (dict_at h2 corpus) (\<lambda>c.
      then_do (deltas_s h2 page_rank (length h) (keys c)) (\<lambda>ds.
      then_do (py_max ds) (\<lambda>m. Inr ((length h, h2), m)))))"
    by (simp add: round_s_def alloc_def p1)
  show ?thesis
  proof (cases "round_loop nc d N pr (keys pr) []")
    case (Inl e)
    with loop show ?thesis
      by (simp add: unfold)
  next
    case (Inr new)
    with loop obtain h2
      where r: "round_loop_s ?h1 corpus d N page_rank (length h) (keys pr) = Inr h2"
        and n2: "dict_at h2 (length h) = Inr (num_dict new)"
        and se: "same_except (length h) ?h1 h2"
      by auto
    have "corpus \<noteq> length h"
      using cl by simp
    with se g1 have g2: "graph_at h2 corpus nc"
      by (rule same_except_graph_at)
    then obtain c where c: "dict_at h2 corpus = Inr c" and kc: "keys c = keys nc"
      by (auto simp: graph_at_def links_rel_keys)
    have p2: "dict_at h2 page_rank = Inr (num_dict pr)"
      using se p1 pl by (simp add: same_except_dict_at)
    have ds: "deltas_s h2 page_rank (length h) (keys c) = deltas pr new (keys nc)"
      unfolding kc using p2 n2 by (rule deltas_s_refines)
    have u2: "round_s h corpus d N page_rank =
        then_do (deltas pr new (keys nc)) (\<lambda>ds.
        then_do (py_max ds) (\<lambda>m. Inr ((length h, h2), m)))"
      by (simp add: unfold r c ds)
    show ?thesis
    proof (cases "deltas pr new (keys nc)")
      case (Inl e)
      then show ?thesis
        using Inr by (simp add: u2 max_delta_def)
    next
      case ds': (Inr dl)
      show ?thesis
      proof (cases "py_max dl")
        case (Inl e)
        then show ?thesis
          using Inr ds' by (simp add: u2 max_delta_def)
      next
        case m: (Inr m)
        then show ?thesis
          using Inr ds' n2 g2 by (simp add: u2 max_delta_def)
      qed
    qed
  qed
qed

lemma pr_while_s_refines:
  assumes "pr_while nc d N pr = Some y"
  shows "\<forall>h corpus page_rank.
           graph_at h corpus nc \<longrightarrow> dict_at h page_rank = Inr (num_dict pr) \<longrightarrow>
           (case y of
              Inl e \<Rightarrow> pr_while_s h corpus d N page_rank = Some (Inl e)
            | Inr res \<Rightarrow>
                \<exists>a h'. pr_while_s h corpus d N page_rank = Some (Inr (a, h'))
                    \<and> dict_at h' a = Inr (num_dict res))"
proof (rule pr_while.raw_induct
    [where P = "\<lambda>nc d N pr y. \<forall>h corpus page_rank.
           graph_at h corpus nc \<longrightarrow> dict_at h page_rank = Inr (num_dict pr) \<longrightarrow>
           (case y of
              Inl e \<Rightarrow> pr_while_s h corpus d N page_rank = Some (Inl e)
            | Inr res \<Rightarrow>
                \<exists>a h'. pr_while_s h corpus d N page_rank = Some (Inr (a, h'))
                    \<and> dict_at h' a = Inr (num_dict res))",
     OF _ assms])
  fix f :: "corpus \<Rightarrow> real \<Rightarrow> nat \<Rightarrow> dist \<Rightarrow> (error + dist) option"
    and nc d N pr y
  assume IH: "\<And>nc d N pr y. f nc d N pr = Some y \<Longrightarrow>
      \<forall>h corpus page_rank.
           graph_at h corpus nc \<longrightarrow> dict_at h page_rank = Inr (num_dict pr) \<longrightarrow>
           (case y of
              Inl e \<Rightarrow> pr_while_s h corpus d N page_rank = Some (Inl e)
            | Inr res \<Rightarrow>
                \<exists>a h'. pr_while_s h corpus d N page_rank = Some (Inr (a, h'))
                    \<and> dict_at h' a = Inr (num_dict res))"
    and eq: "(case round_loop nc d N pr (keys pr) [] of
        Inl e \<Rightarrow> Some (Inl e)
      | Inr new_pr \<Rightarrow>
         (case max_delta nc pr new_pr of
            Inl e \<Rightarrow> Some (Inl e)
          | Inr m \<Rightarrow>
              if m \<le> 1 / 1000 then Some (Inr new_pr)
              else f nc d N new_pr)) = Some y"
  show "\<forall>h corpus page_rank.
           graph_at h corpus nc \<longrightarrow> dict_at h page_rank = Inr (num_dict pr) \<longrightarrow>
           (case y of
              Inl e \<Rightarrow> pr_while_s h corpus d N page_rank = Some (Inl e)
            | Inr res \<Rightarrow>
                \<exists>a h'. pr_while_s h corpus d N page_rank = Some (Inr (a, h'))
                    \<and> dict_at h' a = Inr (num_dict res))"
  proof (intro allI impI)
    fix h corpus page_rank
    assume g: "graph_at h corpus nc" and p: "dict_at h page_rank = Inr (num_dict pr)"
    note r = round_s_refines [OF g p, of d N]
    show "case y of
              Inl e \<Rightarrow> pr_while_s h corpus d N page_rank = Some (Inl e)
            | Inr res \<Rightarrow>
                \<exists>a h'. pr_while_s h corpus d N page_rank = Some (Inr (a, h'))
                    \<and> dict_at h' a = Inr (num_dict res)"
    proof (cases "round_loop nc d N pr (keys pr) []")
      case (Inl e)
      with eq have "y = Inl e" by simp
      moreover from r Inl have "round_s h corpus d N page_rank = Inl e" by simp
      ultimately show ?thesis
        by (subst pr_while_s.simps) simp
    next
      case (Inr new)
      show ?thesis
      proof (cases "max_delta nc pr new")
        case (Inl e)
        with eq Inr have "y = Inl e" by simp
        moreover from r Inr Inl have "round_s h corpus d N page_rank = Inl e" by simp
        ultimately show ?thesis
          by (subst pr_while_s.simps) simp
      next
        case m: (Inr m)
        with r Inr obtain h'
          where rs: "round_s h corpus d N page_rank = Inr ((length h, h'), m)"
            and n': "dict_at h' (length h) = Inr (num_dict new)"
            and g': "graph_at h' corpus nc"
          by auto
        show ?thesis
        proof (cases "m \<le> 1 / 1000")
          case True
          with eq Inr m have "y = Inr new" by simp
          moreover have "pr_while_s h corpus d N page_rank = Some (Inr (length h, h'))"
            using rs True by (subst pr_while_s.simps) simp
          ultimately show ?thesis
            using n' by auto
        next
          case False
          with eq Inr m have "f nc d N new = Some y" by simp
          from IH [OF this] g' n'
          have "case y of
              Inl e \<Rightarrow> pr_while_s h' corpus d N (length h) = Some (Inl e)
            | Inr res \<Rightarrow>
                \<exists>a h''. pr_while_s h' corpus d N (length h) = Some (Inr (a, h''))
                    \<and> dict_at h'' a = Inr (num_dict res)"
            by blast
          moreover have "pr_while_s h corpus d N page_rank = pr_while_s h' corpus d N (length h)"
            using rs False by (subst pr_while_s.simps) simp
          ultimately show ?thesis
            by (cases y) simp_all
        qed
      qed
    qed
  qed
qed

lemma normalized_items_refines:
  assumes "list_all2 (links_rel h) dd c" and "set_at h all_pages = Inr A"
  shows "\<exists>items. normalized_items h all_pages dd = Inr items
            \<and> list_all2 (links_rel h) items
                 (map (\<lambda>(k, v). (k, if fcard v = 0 then A else v)) c)"
  using assms(1)
proof (induction rule: list_all2_induct)
  case Nil
  show ?case by simp
next
  case (Cons x xs y ys)
  obtain k v where x: "x = (k, v)" by (cases x)
  obtain k' links where y: "y = (k', links)" by (cases y)
  from Cons(1) obtain r where r: "v = Ref r" "set_at h r = Inr links" and k: "k = k'"
    by (auto simp: links_rel_def x y)
  from Cons.IH obtain items where items: "normalized_items h all_pages xs = Inr items"
    and rel: "list_all2 (links_rel h) items (map (\<lambda>(k, v). (k, if fcard v = 0 then A else v)) ys)"
    by blast
  have "links_rel h (k, if fcard links = 0 then Ref all_pages else Ref r)
          (k', if fcard links = 0 then A else links)"
    using r(2) k assms(2) by (simp add: links_rel_def)
  with items rel show ?case
    by (simp add: x y r)
qed

lemma iterate_pagerank_s_refines:
  assumes "graph_at h a c" and "iterate_pagerank c d = Some y"
  shows "case y of
           Inl e \<Rightarrow> iterate_pagerank_s h a d = Some (Inl e)
         | Inr pr \<Rightarrow>
             \<exists>res h'. iterate_pagerank_s h a d = Some (Inr (res, h'))
                 \<and> dict_at h' res = Inr (num_dict pr)"
proof -
  from assms(1) obtain dd where dd: "dict_at h a = Inr dd" and rel: "list_all2 (links_rel h) dd c"
    by (auto simp: graph_at_def)
  have kd: "keys dd = keys c"
    using rel by (rule links_rel_keys)
  let ?A = "fset_of_list (keys c)"
  let ?nc = "normalized_corpus c"
  let ?h1 = "h @ [SetObj ?A]"
  have rel1: "list_all2 (links_rel ?h1) dd c"
    using rel by (rule list_all2_links_rel_append)
  have "set_at ?h1 (length h) = Inr ?A"
    by simp
  from normalized_items_refines [OF rel1 this] obtain items
    where items: "normalized_items ?h1 (length h) dd = Inr items"
      and reli: "list_all2 (links_rel ?h1) items ?nc"
    by (auto simp: normalized_corpus_def)
  have ki: "keys items = keys ?nc" and li: "length items = length ?nc"
    using reli by (simp_all add: links_rel_keys list_all2_lengthD del: keys_normalized length_normalized)
  let ?h2 = "?h1 @ [DictObj items]"
  let ?pr = "map (\<lambda>p. (p, 1 / real (length ?nc))) (keys ?nc)"
  let ?h3 = "?h2 @ [DictObj (num_dict ?pr)]"
  have "list_all2 (links_rel ?h2) items ?nc"
    using reli by (rule list_all2_links_rel_append)
  moreover have "dict_at ?h2 (length ?h1) = Inr items"
    by (rule dict_at_new)
  ultimately have "graph_at ?h2 (length ?h1) ?nc"
    by (auto simp: graph_at_def)
  then have g3: "graph_at ?h3 (length ?h1) ?nc"
    by (rule graph_at_append)
  have p3: "dict_at ?h3 (length ?h2) = Inr (num_dict ?pr)"
    by (rule dict_at_new)
  have unfold: "iterate_pagerank_s h a d
      = pr_while_s ?h3 (length ?h1) d (length ?nc) (length ?h2)"
    using dd items by (simp add: iterate_pagerank_s_def alloc_def kd ki li)
  have "pr_while ?nc d (length ?nc) ?pr = Some y"
    using assms(2) by (simp add: iterate_pagerank_def Let_def)
  from pr_while_s_refines [OF this] g3 p3 show ?thesis
    unfolding unfold by blast
qed

lemma graph_at_store_of: "graph_at (store_of c) (length c) c"
proof -
  let ?sets = "map (\<lambda>(k, v). SetObj v) c"
  let ?d = "map (\<lambda>i. (fst (c ! i), Ref i)) [0..<length c]"
  have d: "dict_at (store_of c) (length c) = Inr ?d"
    using dict_at_new [of ?sets ?d] by (simp add: store_of_def)
  have "list_all2 (links_rel (store_of c)) ?d c"
  proof (rule list_all2_all_nthI)
    show "length ?d = length c" by simp
  next
    fix n assume "n < length ?d"
    then have n: "n < length c" by simp
    then have "set_at (store_of c) n = Inr (snd (c ! n))"
      by (simp add: store_of_def set_at_def nth_append case_prod_unfold)
    then show "links_rel (store_of c) (?d ! n) (c ! n)"
      using n by (simp add: links_rel_def)
  qed
  with d show ?thesis
    by (auto simp: graph_at_def)
qed

lemma lookup_count_dict:
  "lookup (count_dict s) p = (case lookup s p of Inl e \<Rightarrow> Inl e | Inr c \<Rightarrow> Inr (Count c))"
  by (induction s) (auto simp: count_dict_def lookup_def)

lemma get_count_count_dict:
  "dict_at h a = Inr (count_dict s) \<Longrightarrow> get_count h a p = lookup s p"
  by (cases "lookup s p") (simp_all add: get_count_def dict_get_def lookup_count_dict)

lemma count_dict_update:
  "count_dict (AList.update k c s) = AList.update k (Count c) (count_dict s)"
  by (induction s) (auto simp: count_dict_def)

lemma lookup_iv_dict:
  "lookup (iv_dict t) p =
     (case lookup t p of Inl e \<Rightarrow> Inl e | Inr (lo, hi) \<Rightarrow> Inr (Interval lo hi))"
  by (induction t) (auto simp: iv_dict_def lookup_def)

lemma get_interval_iv_dict:
  "dict_at h a = Inr (iv_dict t) \<Longrightarrow> get_interval h a p = lookup t p"
  by (cases "lookup t p") (auto simp: get_interval_def dict_get_def lookup_iv_dict)

lemma iv_dict_update:
  "iv_dict (AList.update k (lo, hi) t) = AList.update k (Interval lo hi) (iv_dict t)"
  by (induction t) (auto simp: iv_dict_def)

lemma keys_iv_dict [simp]: "keys (iv_dict t) = keys t"
  by (simp add: iv_dict_def keys_def comp_def case_prod_unfold)

lemma cache_rel_lookup:
  assumes "list_all2 (cache_rel h s m) md models"
  shows "case lookup models k of
           Inl e \<Rightarrow> lookup md k = Inl e
         | Inr None \<Rightarrow> lookup md k = Inr NoneVal
         | Inr (Some t) \<Rightarrow>
             \<exists>r. lookup md k = Inr (Ref r) \<and> r \<noteq> s \<and> r \<noteq> m \<and> dict_at h r = Inr (iv_dict t)"
  using assms
proof (induction rule: list_all2_induct)
  case Nil
  show ?case by (simp add: lookup_def)
next
  case (Cons x xs y ys)
  obtain k1 v where x: "x = (k1, v)" by (cases x)
  obtain k2 c where y: "y = (k2, c)" by (cases y)
  from Cons(1) have kk: "k1 = k2"
    by (simp add: cache_rel_def x y)
  show ?case
  proof (cases "k = k1")
    case True
    with Cons(1) show ?thesis
      by (cases c) (auto simp: lookup_def cache_rel_def x y kk)
  next
    case False
    have e: "lookup (x # xs) k = lookup xs k" "lookup (y # ys) k = lookup ys k"
      using False kk by (simp_all add: lookup_def x y)
    show ?thesis
      unfolding e by (rule Cons.IH)
  qed
qed

lemma list_all2_update:
  assumes "list_all2 R xs ys" and "R (k, v) (k, w)"
    and "\<And>e e'. R e e' \<Longrightarrow> fst e = fst e'"
  shows "list_all2 R (AList.update k v xs) (AList.update k w ys)"
  using assms(1)
proof (induction rule: list_all2_induct)
  case Nil
  show ?case using assms(2) by simp
next
  case (Cons x xs y ys)
  have "fst x = fst y"
    using Cons(1) by (rule assms(3))
  with Cons assms(2) show ?case
    by simp
qed

lemma pick_loop_s_refines:
  assumes "dict_at h model = Inr (iv_dict t)"
  shows "pick_loop_s h model ps r page = pick_loop t ps r page"
proof (induction ps)
  case Nil
  show ?case by simp
next
  case (Cons p ps)
  then show ?case
    by (cases "lookup t p") (auto simp: get_interval_iv_dict [OF assms])
qed

lemma transform_loop_s_refines:
  assumes "dict_at h tm_ref = Inr (num_dict tm)" and "dict_at h t_ref = Inr (iv_dict acc)"
    and "t_ref \<noteq> tm_ref"
  shows "case transform_loop tm ps th acc of
           Inl e \<Rightarrow> transform_loop_s h tm_ref t_ref ps th = Inl e
         | Inr acc' \<Rightarrow>
             \<exists>h'. transform_loop_s h tm_ref t_ref ps th = Inr h'
                \<and> dict_at h' t_ref = Inr (iv_dict acc') \<and> same_except t_ref h h'"
  using assms(1,2)
proof (induction ps arbitrary: h th acc)
  case Nil
  have "same_except t_ref h h"
    using Nil(2) by (simp add: same_except_def)
  with Nil(2) show ?case
    by simp
next
  case (Cons p ps)
  have gn: "get_num h tm_ref p = lookup tm p"
    using Cons.prems(1) by (rule get_num_num_dict)
  show ?case
  proof (cases "lookup tm p")
    case (Inl e)
    then show ?thesis
      using gn by simp
  next
    case (Inr v)
    from dict_set_result [OF Cons.prems(2), of p "Interval th (th + v)"] obtain h1
      where set: "dict_set h t_ref p (Interval th (th + v)) = Inr h1"
        and new: "dict_at h1 t_ref = Inr (iv_dict (AList.update p (th, th + v) acc))"
        and se: "same_except t_ref h h1"
      by (auto simp: iv_dict_update)
    have tm1: "dict_at h1 tm_ref = Inr (num_dict tm)"
      using se Cons.prems(1) assms(3) by (simp add: same_except_dict_at)
    note IH = Cons.IH [OF tm1 new, of "th + v"]
    have step: "transform_loop_s h tm_ref t_ref (p # ps) th
                  = transform_loop_s h1 tm_ref t_ref ps (th + v)"
      using gn Inr set by simp
    have pure: "transform_loop tm (p # ps) th acc
                  = transform_loop tm ps (th + v) (AList.update p (th, th + v) acc)"
      using Inr by simp
    show ?thesis
    proof (cases "transform_loop tm ps (th + v) (AList.update p (th, th + v) acc)")
      case (Inl e)
      with IH show ?thesis
        unfolding step pure by simp
    next
      case acc': (Inr acc')
      with IH obtain h' where "transform_loop_s h1 tm_ref t_ref ps (th + v) = Inr h'"
        and "dict_at h' t_ref = Inr (iv_dict acc')" and se': "same_except t_ref h1 h'"
        by auto
      moreover have "same_except t_ref h h'"
        using se se' by (auto simp: same_except_def)
      ultimately show ?thesis
        unfolding step pure acc' by simp
    qed
  qed
qed

lemma transform_model_s_refines:
  assumes "dict_at h tm_ref = Inr (num_dict tm)"
  shows "case transform_model tm of
           Inl e \<Rightarrow> transform_model_s h tm_ref = Inl e
         | Inr t \<Rightarrow>
             \<exists>h'. transform_model_s h tm_ref = Inr (length h, h')
                \<and> dict_at h' (length h) = Inr (iv_dict t)
                \<and> same_except (length h) (h @ [DictObj []]) h'"
proof -
  let ?h1 = "h @ [DictObj []]"
  have tl: "tm_ref < length h"
    using assms by (rule dict_at_less)
  have tm1: "dict_at ?h1 tm_ref = Inr (num_dict tm)"
    using assms tl by (simp add: dict_at_append)
  have t1: "dict_at ?h1 (length h) = Inr (iv_dict [])"
    by (simp add: iv_dict_def)
  have ne: "length h \<noteq> tm_ref"
    using tl by simp
  note loop = transform_loop_s_refines [OF tm1 t1 ne, of "keys tm" 0]
  have unfold: "transform_model_s h tm_ref =
      then_do (transform_loop_s ?h1 tm_ref (length h) (keys tm) 0) (\<lambda>h2. Inr (length h, h2))"
    by (simp add: transform_model_s_def alloc_def tm1)
  show ?thesis
  proof (cases "transform_model tm")
    case (Inl e)
    with loop show ?thesis
      by (simp add: unfold transform_model_def)
  next
    case (Inr t)
    with loop show ?thesis
      by (auto simp: unfold transform_model_def)
  qed
qed

lemma cache_rel_transfer:
  assumes "list_all2 (cache_rel h s m) md models"
    and "\<And>r. r \<noteq> s \<Longrightarrow> r \<noteq> m \<Longrightarrow> r < length h \<Longrightarrow> dict_at h' r = dict_at h r"
  shows "list_all2 (cache_rel h' s m) md models"
  using assms(1)
proof (rule list_all2_mono)
  fix e e' assume r: "cache_rel h s m e e'"
  show "cache_rel h' s m e e'"
  proof (cases "snd e'")
    case None
    with r show ?thesis
      by (simp add: cache_rel_def)
  next
    case (Some t)
    with r obtain a where a: "snd e = Ref a" "a \<noteq> s" "a \<noteq> m" "dict_at h a = Inr (iv_dict t)"
      and k: "fst e = fst e'"
      by (auto simp: cache_rel_def)
    have "dict_at h' a = dict_at h a"
      using a(2,3) dict_at_less [OF a(4)] by (rule assms(2))
    with a k Some show ?thesis
      by (simp add: cache_rel_def)
  qed
qed

lemma graph_at_transfer:
  assumes "graph_at h a c"
    and "\<And>x. x < length h \<Longrightarrow> dict_at h' x = dict_at h x"
    and "\<And>x. x < length h \<Longrightarrow> set_at h' x = set_at h x"
  shows "graph_at h' a c"
proof -
  from assms(1) obtain d where d: "dict_at h a = Inr d" and rel: "list_all2 (links_rel h) d c"
    by (auto simp: graph_at_def)
  have "list_all2 (links_rel h') d c"
    using rel
  proof (rule list_all2_mono)
    fix e e' assume "links_rel h e e'"
    then obtain r where r: "snd e = Ref r" "set_at h r = Inr (snd e')" and k: "fst e = fst e'"
      by (auto simp: links_rel_def)
    have "set_at h' r = set_at h r"
      using set_at_less [OF r(2)] by (rule assms(3))
    with r k show "links_rel h' e e'"
      by (simp add: links_rel_def)
  qed
  moreover have "dict_at h' a = Inr d"
    using d dict_at_less [OF d] by (simp add: assms(2))
  ultimately show ?thesis
    by (auto simp: graph_at_def)
qed

lemma sampler_at_transfer:
  assumes "sampler_at h corpus s m c sample models"
    and "\<And>x. x < length h \<Longrightarrow> dict_at h' x = dict_at h x"
    and "\<And>x. x < length h \<Longrightarrow> set_at h' x = set_at h x"
  shows "sampler_at h' corpus s m c sample models"
proof -
  from assms(1) obtain md where g: "graph_at h corpus c"
    and sd: "dict_at h s = Inr (count_dict sample)"
    and md: "dict_at h m = Inr md" and rel: "list_all2 (cache_rel h s m) md models"
    and ne: "s \<noteq> m" "s \<noteq> corpus" "m \<noteq> corpus"
    by (auto simp: sampler_at_def)
  have "graph_at h' corpus c"
    using g assms(2,3) by (rule graph_at_transfer)
  moreover have "list_all2 (cache_rel h' s m) md models"
    using rel by (rule cache_rel_transfer) (rule assms(2))
  moreover have "dict_at h' s = Inr (count_dict sample)"
    using sd dict_at_less [OF sd] by (simp add: assms(2))
  moreover have "dict_at h' m = Inr md"
    using md dict_at_less [OF md] by (simp add: assms(2))
  ultimately show ?thesis
    using ne by (auto simp: sampler_at_def)
qed

lemma sampler_at_set_sample:
  assumes "sampler_at h corpus s m c sample models"
    and "dict_set h s k (Count n) = Inr h'"
  shows "sampler_at h' corpus s m c (AList.update k n sample) models"
proof -
  from assms(1) obtain md where g: "graph_at h corpus c"
    and sd: "dict_at h s = Inr (count_dict sample)"
    and md: "dict_at h m = Inr md" and rel: "list_all2 (cache_rel h s m) md models"
    and ne: "s \<noteq> m" "s \<noteq> corpus" "m \<noteq> corpus"
    by (auto simp: sampler_at_def)
  from dict_set_result [OF sd, of k "Count n"] assms(2)
  have new: "dict_at h' s = Inr (count_dict (AList.update k n sample))"
    and se: "same_except s h h'"
    by (auto simp: count_dict_update)
  have "corpus \<noteq> s"
    using ne(2) by simp
  with se g have "graph_at h' corpus c"
    by (rule same_except_graph_at)
  moreover have "list_all2 (cache_rel h' s m) md models"
    using rel by (rule cache_rel_transfer) (simp add: same_except_dict_at [OF se])
  moreover have "dict_at h' m = Inr md"
    using md ne(1) by (simp add: same_except_dict_at [OF se])
  ultimately show ?thesis
    using new ne by (auto simp: sampler_at_def)
qed

lemma sampler_at_set_models:
  assumes "sampler_at h corpus s m c sample models"
    and "dict_at h ta = Inr (iv_dict t)" and "ta \<noteq> s" and "ta \<noteq> m"
    and "dict_set h m k (Ref ta) = Inr h'"
  shows "sampler_at h' corpus s m c sample (AList.update k (Some t) models)"
proof -
  from assms(1) obtain md where g: "graph_at h corpus c"
    and sd: "dict_at h s = Inr (count_dict sample)"
    and md: "dict_at h m = Inr md" and rel: "list_all2 (cache_rel h s m) md models"
    and ne: "s \<noteq> m" "s \<noteq> corpus" "m \<noteq> corpus"
    by (auto simp: sampler_at_def)
  from dict_set_result [OF md, of k "Ref ta"] assms(5)
  have new: "dict_at h' m = Inr (AList.update k (Ref ta) md)"
    and se: "same_except m h h'"
    by auto
  have "corpus \<noteq> m"
    using ne(3) by simp
  with se g have g': "graph_at h' corpus c"
    by (rule same_except_graph_at)
  have s': "dict_at h' s = Inr (count_dict sample)"
    using sd ne(1) by (simp add: same_except_dict_at [OF se])
  have old: "list_all2 (cache_rel h' s m) md models"
    using rel by (rule cache_rel_transfer) (simp add: same_except_dict_at [OF se])
  have "dict_at h' ta = Inr (iv_dict t)"
    using assms(2,4) by (simp add: same_except_dict_at [OF se])
  then have entry: "cache_rel h' s m (k, Ref ta) (k, Some t)"
    using assms(3,4) by (simp add: cache_rel_def)
  have "list_all2 (cache_rel h' s m) (AList.update k (Ref ta) md) (AList.update k (Some t) models)"
    using old entry by (rule list_all2_update) (simp add: cache_rel_def)
  with new g' s' ne show ?thesis
    by (auto simp: sampler_at_def)
qed

lemma fill_cache_s_refines:
  assumes "sampler_at h corpus s m c sample models"
  shows "case fill_cache c d page models of
           Inl e \<Rightarrow> fill_cache_s h corpus m d page = Inl e
         | Inr models' \<Rightarrow>
             \<exists>h'. fill_cache_s h corpus m d page = Inr h'
                \<and> sampler_at h' corpus s m c sample models'"
proof -
  from assms obtain md where g: "graph_at h corpus c"
    and sd: "dict_at h s = Inr (count_dict sample)"
    and md: "dict_at h m = Inr md" and rel: "list_all2 (cache_rel h s m) md models"
    by (auto simp: sampler_at_def)
  have lt: "s < length h" "m < length h"
    using sd md by (auto dest: dict_at_less)
  note lk = cache_rel_lookup [OF rel, of page]
  show ?thesis
  proof (cases "lookup models page")
    case (Inl e)
    with lk show ?thesis
      by (simp add: fill_cache_def fill_cache_s_def dict_get_def md)
  next
    case (Inr cached)
    show ?thesis
    proof (cases cached)
      case (Some t)
      with lk Inr obtain r where "lookup md page = Inr (Ref r)"
        by auto
      then show ?thesis
        using Inr Some assms by (auto simp: fill_cache_def fill_cache_s_def dict_get_def md)
    next
      case None
      with lk Inr have get: "dict_get h m page = Inr NoneVal"
        by (simp add: dict_get_def md)
      note tms = transition_model_s_refines [OF g, of page d]
      show ?thesis
      proof (cases "transition_model c page d")
        case (Inl e)
        with tms show ?thesis
          using Inr None get by (simp add: fill_cache_def fill_cache_s_def)
      next
        case tm: (Inr tm)
        let ?h1 = "h @ [DictObj (num_dict tm)]"
        from tms tm have tm_s: "transition_model_s h corpus page d = Inr (length h, ?h1)"
          by (simp add: alloc_def)
        have tm1: "dict_at ?h1 (length h) = Inr (num_dict tm)"
          by (rule dict_at_new)
        note tfs = transform_model_s_refines [OF tm1]
        show ?thesis
        proof (cases "transform_model tm")
          case (Inl e)
          with tfs show ?thesis
            using Inr None get tm tm_s by (simp add: fill_cache_def fill_cache_s_def)
        next
          case t: (Inr t)
          let ?ta = "length ?h1"
          from tfs t obtain h2
            where tf_s: "transform_model_s ?h1 (length h) = Inr (?ta, h2)"
              and t2: "dict_at h2 ?ta = Inr (iv_dict t)"
              and se: "same_except ?ta (?h1 @ [DictObj []]) h2"
            by auto
          have keep_d: "dict_at h2 x = dict_at h x" if "x < length h" for x
          proof -
            have "x \<noteq> ?ta" using that by simp
            with se have "dict_at h2 x = dict_at (?h1 @ [DictObj []]) x"
              by (rule same_except_dict_at)
            also have "\<dots> = dict_at h x"
              using that by (simp add: dict_at_append)
            finally show ?thesis .
          qed
          have keep_s: "set_at h2 x = set_at h x" if "x < length h" for x
          proof -
            have "set_at h2 x = set_at (?h1 @ [DictObj []]) x"
              using se by (rule same_except_set_at)
            also have "\<dots> = set_at h x"
              using that by (simp add: set_at_append)
            finally show ?thesis .
          qed
          have s2: "sampler_at h2 corpus s m c sample models"
            using assms keep_d keep_s by (rule sampler_at_transfer)
          then obtain md2 where "dict_at h2 m = Inr md2"
            by (auto simp: sampler_at_def)
          from dict_set_result [OF this, of page "Ref ?ta"] obtain h3
            where set: "dict_set h2 m page (Ref ?ta) = Inr h3"
            by blast
          have "?ta \<noteq> s" "?ta \<noteq> m"
            using lt by simp_all
          with s2 t2 have "sampler_at h3 corpus s m c sample (AList.update page (Some t) models)"
            using set by (rule sampler_at_set_models)
          moreover have "fill_cache_s h corpus m d page = Inr h3"
            using get tm_s tf_s set by (simp add: fill_cache_s_def)
          moreover have "fill_cache c d page models = Inr (AList.update page (Some t) models)"
            using Inr None tm t by (simp add: fill_cache_def)
          ultimately show ?thesis
            by simp
        qed
      qed
    qed
  qed
qed

lemma sample_step_s_refines:
  assumes "sampler_at h corpus s m c sample models"
  shows "case sample_step c d r (page, sample, models) of
           Inl e \<Rightarrow> sample_step_s h corpus s m d r page = Inl e
         | Inr (page', sample', models') \<Rightarrow>
             \<exists>h'. sample_step_s h corpus s m d r page = Inr (page', h')
                \<and> sampler_at h' corpus s m c sample' models'"
proof (cases "fill_cache c d page models")
  case (Inl e)
  with fill_cache_s_refines [OF assms, of d page] show ?thesis
    by (simp add: sample_step_def sample_step_s_def)
next
  case (Inr models')
  with fill_cache_s_refines [OF assms, of d page] obtain h1
    where f: "fill_cache_s h corpus m d page = Inr h1"
      and s1: "sampler_at h1 corpus s m c sample models'"
    by auto
  from s1 obtain md where sd: "dict_at h1 s = Inr (count_dict sample)"
    and md: "dict_at h1 m = Inr md" and rel: "list_all2 (cache_rel h1 s m) md models'"
    by (auto simp: sampler_at_def)
  note lk = cache_rel_lookup [OF rel, of page]
  have pure1: "sample_step c d r (page, sample, models) =
      (case lookup models' page of
         Inl e \<Rightarrow> Inl e
       | Inr None \<Rightarrow> Inl TypeError
       | Inr (Some model) \<Rightarrow>
          (case pick_loop model (keys model) r page of
             Inl e \<Rightarrow> Inl e
           | Inr page' \<Rightarrow>
              (case lookup sample page' of
                 Inl e \<Rightarrow> Inl e
               | Inr count \<Rightarrow> Inr (page', AList.update page' (count + 1) sample, models'))))"
    using Inr by (simp add: sample_step_def)
  have store1: "sample_step_s h corpus s m d r page =
      then_do (get_ref h1 m page) (\<lambda>model.
      then_do (dict_at h1 model) (\<lambda>mm.
      then_do (pick_loop_s h1 model (keys mm) r page) (\<lambda>page'.
      then_do (get_count h1 s page') (\<lambda>count.
      then_do (dict_set h1 s page' (Count (count + 1))) (\<lambda>h2.
        Inr (page', h2))))))"
    using f by (simp add: sample_step_s_def)
  show ?thesis
  proof (cases "lookup models' page")
    case (Inl e)
    with lk show ?thesis
      by (simp add: pure1 store1 get_ref_def dict_get_def md)
  next
    case cached: (Inr cached)
    show ?thesis
    proof (cases cached)
      case None
      with lk cached show ?thesis
        by (simp add: pure1 store1 get_ref_def dict_get_def md)
    next
      case (Some model)
      with lk cached obtain a where ref: "lookup md page = Inr (Ref a)"
        and da: "dict_at h1 a = Inr (iv_dict model)"
        by auto
      have gr: "get_ref h1 m page = Inr a"
        using ref by (simp add: get_ref_def dict_get_def md)
      have pk: "pick_loop_s h1 a (keys (iv_dict model)) r page
                  = pick_loop model (keys model) r page"
        using da by (simp add: pick_loop_s_refines)
      show ?thesis
      proof (cases "pick_loop model (keys model) r page")
        case (Inl e)
        then show ?thesis
          using cached Some gr da pk by (simp add: pure1 store1)
      next
        case page': (Inr page')
        have gc: "get_count h1 s page' = lookup sample page'"
          using sd by (rule get_count_count_dict)
        show ?thesis
        proof (cases "lookup sample page'")
          case (Inl e)
          then show ?thesis
            using cached Some gr da pk page' gc by (simp add: pure1 store1)
        next
          case count: (Inr count)
          from dict_set_result [OF sd, of page' "Count (count + 1)"] obtain h2
            where set: "dict_set h1 s page' (Count (count + 1)) = Inr h2"
            by blast
          with s1 have "sampler_at h2 corpus s m c (AList.update page' (count + 1) sample) models'"
            by (rule sampler_at_set_sample)
          then show ?thesis
            using cached Some gr da pk page' gc count set by (simp add: pure1 store1)
        qed
      qed
    qed
  qed
qed

lemma sample_loop_s_refines:
  assumes "sampler_at h corpus s m c sample models"
  shows "case sample_loop c d rnd i k (page, sample, models) of
           Inl e \<Rightarrow> sample_loop_s h corpus s m d rnd i k page = Inl e
         | Inr (page', sample', models') \<Rightarrow>
             \<exists>h'. sample_loop_s h corpus s m d rnd i k page = Inr (page', h')
                \<and> sampler_at h' corpus s m c sample' models'"
  using assms
proof (induction k arbitrary: h i page sample models)
  case 0
  then show ?case by simp
next
  case (Suc k)
  note st = sample_step_s_refines [OF Suc.prems, of d "rnd i" page]
  show ?case
  proof (cases "sample_step c d (rnd i) (page, sample, models)")
    case (Inl e)
    with st show ?thesis
      by simp
  next
    case (Inr st1)
    obtain p1 s1 m1 where st1: "st1 = (p1, s1, m1)"
      by (cases st1)
    from st Inr st1 obtain h1
      where a: "sample_step_s h corpus s m d (rnd i) page = Inr (p1, h1)"
        and b: "sampler_at h1 corpus s m c s1 m1"
      by auto
    have pure: "sample_loop c d rnd i (Suc k) (page, sample, models)
                  = sample_loop c d rnd (Suc i) k (p1, s1, m1)"
      using Inr st1 by simp
    have store: "sample_loop_s h corpus s m d rnd i (Suc k) page
                  = sample_loop_s h1 corpus s m d rnd (Suc i) k p1"
      using a by simp
    show ?thesis
      unfolding pure store by (rule Suc.IH [OF b])
  qed
qed

lemma ranks_of_count_dict:
  "n \<noteq> 0 \<Longrightarrow> ranks_of n (count_dict sample)
     = Inr (num_dict (map (\<lambda>(key, value). (key, real value / real_of_int n)) sample))"
  by (induction sample) (auto simp: count_dict_def num_dict_def)

lemma ranks_of_zero:
  "sample \<noteq> [] \<Longrightarrow> ranks_of 0 (count_dict sample) = Inl ZeroDivisionError"
  by (cases sample) (auto simp: count_dict_def)

lemma sample_pagerank_s_refines:
  assumes "graph_at h corpus c"
  shows "case sample_pagerank c d n choice rnd of
           Inl e \<Rightarrow> sample_pagerank_s h corpus d n choice rnd = Inl e
         | Inr ranks \<Rightarrow>
             \<exists>res h'. sample_pagerank_s h corpus d n choice rnd = Inr (res, h')
                 \<and> dict_at h' res = Inr (num_dict ranks)"
proof -
  from assms obtain dd where dd: "dict_at h corpus = Inr dd" and rel: "list_all2 (links_rel h) dd c"
    by (auto simp: graph_at_def)
  have kd: "keys dd = keys c"
    using rel by (rule links_rel_keys)
  show ?thesis
  proof (cases "keys c = []")
    case True
    then show ?thesis
      by (simp add: sample_pagerank_def visit_counts_def sample_pagerank_s_def dd kd)
  next
    case False
    let ?page = "keys c ! (choice mod length (keys c))"
    let ?sample = "map (\<lambda>p. (p, if p = ?page then 1 else 0 :: nat)) (keys c)"
    let ?models = "map (\<lambda>p. (p, None :: intervals option)) (keys c)"
    let ?md = "map (\<lambda>p. (p, NoneVal)) (keys c)"
    let ?h1 = "h @ [DictObj (count_dict ?sample)]"
    let ?h2 = "?h1 @ [DictObj ?md]"
    let ?s = "length h" and ?m = "length ?h1"
    have cl: "corpus < length h"
      using dd by (rule dict_at_less)
    have cd: "count_dict ?sample = map (\<lambda>p. (p, Count (if p = ?page then 1 else 0))) (keys c)"
      by (simp add: count_dict_def)
    have "list_all2 (cache_rel ?h2 ?s ?m) ?md ?models"
      by (rule list_all2_all_nthI) (simp_all add: cache_rel_def)
    moreover have "dict_at ?h2 ?m = Inr ?md"
      by (rule dict_at_new)
    moreover have "dict_at ?h2 ?s = Inr (count_dict ?sample)"
    proof -
      have "dict_at ?h2 ?s = dict_at ?h1 ?s"
        by (rule dict_at_append) simp
      then show ?thesis
        by (simp only: dict_at_new)
    qed
    moreover have "graph_at ?h2 corpus c"
      using graph_at_append [OF assms, of "[DictObj (count_dict ?sample), DictObj ?md]"]
      by simp
    ultimately have inv: "sampler_at ?h2 corpus ?s ?m c ?sample ?models"
      using cl by (auto simp: sampler_at_def)
    note lp = sample_loop_s_refines [OF inv, of d rnd 0 "nat n" ?page]
    have store: "sample_pagerank_s h corpus d n choice rnd =
        then_do (sample_loop_s ?h2 corpus ?s ?m d rnd 0 (nat n) ?page) (\<lambda>(page', h3).
        then_do (dict_at h3 ?s) (\<lambda>s.
        then_do (ranks_of n s) (\<lambda>rs.
          Inr (alloc h3 (DictObj rs)))))"
      using False by (simp add: sample_pagerank_s_def dd kd alloc_def Let_def count_dict_def comp_def)
    have pure: "sample_pagerank c d n choice rnd =
        (case sample_loop c d rnd 0 (nat n) (?page, ?sample, ?models) of
           Inl e \<Rightarrow> Inl e
         | Inr (page', sample', models') \<Rightarrow>
             if n = 0 then Inl ZeroDivisionError
             else Inr (map (\<lambda>(key, value). (key, real value / real_of_int n)) sample'))"
      using False
      by (simp add: sample_pagerank_def visit_counts_def Let_def split: sum.splits)
    show ?thesis
    proof (cases "sample_loop c d rnd 0 (nat n) (?page, ?sample, ?models)")
      case (Inl e)
      with lp show ?thesis
        by (simp add: store pure)
    next
      case (Inr st)
      obtain p' s' m' where st: "st = (p', s', m')"
        by (cases st)
      from lp Inr st obtain h3
        where l: "sample_loop_s ?h2 corpus ?s ?m d rnd 0 (nat n) ?page = Inr (p', h3)"
          and inv3: "sampler_at h3 corpus ?s ?m c s' m'"
        by auto
      from inv3 have s3: "dict_at h3 ?s = Inr (count_dict s')"
        by (simp add: sampler_at_def)
      show ?thesis
      proof (cases "n = 0")
        case True
        then have "s' = ?sample"
          using Inr st by auto
        then have "s' \<noteq> []"
          using False by simp
        then have r0: "ranks_of n (count_dict s') = Inl ZeroDivisionError"
          using True by (simp add: ranks_of_zero)
        have a: "sample_pagerank c d n choice rnd = Inl ZeroDivisionError"
          unfolding pure Inr st using True by simp
        have b: "sample_pagerank_s h corpus d n choice rnd = Inl ZeroDivisionError"
          unfolding store l by (simp add: s3 r0)
        show ?thesis
          unfolding a b by simp
      next
        case nz: False
        let ?ranks = "map (\<lambda>(key, value). (key, real value / real_of_int n)) s'"
        have "sample_pagerank_s h corpus d n choice rnd
                = Inr (length h3, h3 @ [DictObj (num_dict ?ranks)])"
          using l s3 nz by (simp add: store ranks_of_count_dict alloc_def)
        moreover have "sample_pagerank c d n choice rnd = Inr ?ranks"
          using Inr st nz by (simp add: pure)
        ultimately show ?thesis
          by simp
      qed
    qed
  qed
qed

end
